theory Spec2Isabelle
  imports Complex_Main "HOL-Library.Word"
begin

section \<open>Machine model: integers, errors and the free store\<close>

text \<open>
  The elements of an IntSet are C++ \<^verbatim>\<open>int\<close> values: 32-bit two's complement words.
  The code only ever compares them.
\<close>

type_synonym cint = "32 word"

text \<open>
  The members \<^verbatim>\<open>used\<close> and \<^verbatim>\<open>capacity\<close> and the loop counters are C++ \<^verbatim>\<open>int\<close> as well.
  They are modelled as mathematical integers, and the one computation of the source that
  can leave the range of \<^verbatim>\<open>int\<close>, the growth request of \<^verbatim>\<open>add\<close>, checks the range and
  fails with \<open>IntOverflow\<close> where C++ has undefined behaviour. The increments of \<open>used\<close>
  and of the loop counters cannot overflow: each follows an access below \<open>capacity\<close>, or a
  test against \<open>used\<close>, and both are \<^verbatim>\<open>int\<close>.
\<close>

definition INT_MAX :: int where
  "INT_MAX = 2147483647"

definition INT_MIN :: int where
  "INT_MIN = - 2147483648"

datatype error =
    OutOfBounds      \<comment> \<open>an array access outside the allocated array\<close>
  | UninitRead       \<comment> \<open>a read of an array cell that was never written\<close>
  | DanglingPointer  \<comment> \<open>an access through, or a delete of, a pointer to no live array\<close>
  | IntOverflow      \<comment> \<open>an \<^verbatim>\<open>int\<close> computation whose result is not an \<^verbatim>\<open>int\<close>\<close>
  | BadArrayLength   \<comment> \<open>\<^verbatim>\<open>new int[n]\<close> with negative \<open>n\<close>\<close>
  | NoSuchObject     \<comment> \<open>a statement that names a set that was never declared\<close>

text \<open>
  The free store. An address is the index of an array in the store; an array is a list of
  cells, a cell is \<open>None\<close> until it is first written (\<^verbatim>\<open>new int[n]\<close> does not initialise),
  and a deleted array leaves \<open>None\<close> at its address. Addresses are never reused, and
  allocation always succeeds: running out of memory, which ends the program, is outside
  the model.
\<close>

type_synonym addr = nat
type_synonym cell = "cint option"
type_synonym heap = "cell list option list"

definition new_array :: "int \<Rightarrow> heap \<Rightarrow> error + (addr \<times> heap)" where
  "new_array n h =
     (if n < 0 then Inl BadArrayLength
      else Inr (length h, h @ [Some (replicate (nat n) None)]))"

definition delete_array :: "addr \<Rightarrow> heap \<Rightarrow> error + heap" where
  "delete_array p h =
     (if p < length h \<and> h ! p \<noteq> None then Inr (h[p := None]) else Inl DanglingPointer)"

definition load :: "addr \<Rightarrow> int \<Rightarrow> heap \<Rightarrow> error + cint" where
  "load p i h =
     (if p < length h then
        (case h ! p of
           None \<Rightarrow> Inl DanglingPointer
         | Some cs \<Rightarrow>
             if 0 \<le> i \<and> i < int (length cs) then
               (case cs ! nat i of None \<Rightarrow> Inl UninitRead | Some v \<Rightarrow> Inr v)
             else Inl OutOfBounds)
      else Inl DanglingPointer)"

definition store :: "addr \<Rightarrow> int \<Rightarrow> cint \<Rightarrow> heap \<Rightarrow> error + heap" where
  "store p i v h =
     (if p < length h then
        (case h ! p of
           None \<Rightarrow> Inl DanglingPointer
         | Some cs \<Rightarrow>
             if 0 \<le> i \<and> i < int (length cs) then Inr (h[p := Some (cs[nat i := Some v])])
             else Inl OutOfBounds)
      else Inl DanglingPointer)"

section \<open>The class IntSet\<close>

text \<open>
  The three data members of the class. \<open>data\<close> is the pointer to the dynamic array.
\<close>

record IntSet =
  data :: addr
  capacity :: int
  used :: int

text \<open>
  The loop \<^verbatim>\<open>for (int i = i0; i < n; i++) dst[i] = src[i];\<close>, which the source writes
  three times: in \<^verbatim>\<open>resize\<close>, in the copy constructor and in \<^verbatim>\<open>operator=\<close>.
\<close>

function copy_loop :: "addr \<Rightarrow> addr \<Rightarrow> int \<Rightarrow> int \<Rightarrow> heap \<Rightarrow> error + heap" where
  "copy_loop dst src n i h =
     (if i < n then
        (case load src i h of
           Inl e \<Rightarrow> Inl e
         | Inr v \<Rightarrow>
             (case store dst i v h of
                Inl e \<Rightarrow> Inl e
              | Inr h' \<Rightarrow> copy_loop dst src n (i + 1) h'))
      else Inr h)"
  by pat_completeness auto
termination
  by (relation "measure (\<lambda>(dst, src, n, i, h). nat (n - i))") auto

declare copy_loop.simps [simp del]

text \<open>
  \<^verbatim>\<open>void IntSet::resize(int new_capacity)\<close>. The constant \<^verbatim>\<open>DEFAULT_CAPACITY\<close> is declared
  in IntSet.h; it is a parameter of every operation that uses it. An operation takes the
  members of the invoking object and the free store, and returns the members and the store
  as it leaves them.
\<close>

definition resize :: "int \<Rightarrow> IntSet \<Rightarrow> int \<Rightarrow> heap \<Rightarrow> error + (IntSet \<times> heap)" where
  "resize DEFAULT_CAPACITY s new_capacity h =
     (let s1 = (if new_capacity \<le> 0 then s\<lparr>capacity := DEFAULT_CAPACITY\<rparr>
                else if new_capacity < used s then s\<lparr>capacity := used s\<rparr>
                else s\<lparr>capacity := new_capacity\<rparr>)
      in case new_array (capacity s1) h of
           Inl e \<Rightarrow> Inl e
         | Inr (newData, h1) \<Rightarrow>
             (case copy_loop newData (data s1) (used s1) 0 h1 of
                Inl e \<Rightarrow> Inl e
              | Inr h2 \<Rightarrow>
                  (case delete_array (data s1) h2 of
                     Inl e \<Rightarrow> Inl e
                   | Inr h3 \<Rightarrow> Inr (s1\<lparr>data := newData\<rparr>, h3))))"

text \<open>\<^verbatim>\<open>IntSet::IntSet(int initial_capacity)\<close>\<close>

definition IntSet_ctor :: "int \<Rightarrow> int \<Rightarrow> heap \<Rightarrow> error + (IntSet \<times> heap)" where
  "IntSet_ctor DEFAULT_CAPACITY initial_capacity h =
     (let cap = (if initial_capacity \<le> 0 then DEFAULT_CAPACITY else initial_capacity)
      in case new_array cap h of
           Inl e \<Rightarrow> Inl e
         | Inr (p, h1) \<Rightarrow> Inr (\<lparr>data = p, capacity = cap, used = 0\<rparr>, h1))"

text \<open>\<^verbatim>\<open>IntSet::IntSet(const IntSet& src)\<close>\<close>

definition IntSet_copy :: "IntSet \<Rightarrow> heap \<Rightarrow> error + (IntSet \<times> heap)" where
  "IntSet_copy src h =
     (case new_array (capacity src) h of
        Inl e \<Rightarrow> Inl e
      | Inr (p, h1) \<Rightarrow>
          (case copy_loop p (data src) (used src) 0 h1 of
             Inl e \<Rightarrow> Inl e
           | Inr h2 \<Rightarrow> Inr (\<lparr>data = p, capacity = capacity src, used = used src\<rparr>, h2)))"

text \<open>\<^verbatim>\<open>int IntSet::size() const\<close> and \<^verbatim>\<open>bool IntSet::isEmpty() const\<close>\<close>

definition size_IntSet :: "IntSet \<Rightarrow> int" where
  "size_IntSet s = used s"

definition isEmpty :: "IntSet \<Rightarrow> bool" where
  "isEmpty s = (if used s = 0 then True else False)"

text \<open>\<^verbatim>\<open>bool IntSet::contains(int anInt) const\<close>: the scan, then the test around it.\<close>

function contains_loop :: "IntSet \<Rightarrow> cint \<Rightarrow> heap \<Rightarrow> int \<Rightarrow> error + bool" where
  "contains_loop s anInt h i =
     (if i < used s then
        (case load (data s) i h of
           Inl e \<Rightarrow> Inl e
         | Inr v \<Rightarrow> if anInt = v then Inr True else contains_loop s anInt h (i + 1))
      else Inr False)"
  by pat_completeness auto
termination
  by (relation "measure (\<lambda>(s, anInt, h, i). nat (used s - i))") auto

declare contains_loop.simps [simp del]

definition contains :: "IntSet \<Rightarrow> cint \<Rightarrow> heap \<Rightarrow> error + bool" where
  "contains s anInt h = (if used s > 0 then contains_loop s anInt h 0 else Inr False)"

text \<open>\<^verbatim>\<open>bool IntSet::isSubsetOf(const IntSet& otherIntSet) const\<close>\<close>

function isSubsetOf_loop :: "IntSet \<Rightarrow> IntSet \<Rightarrow> heap \<Rightarrow> int \<Rightarrow> error + bool" where
  "isSubsetOf_loop s otherIntSet h i =
     (if i < used s then
        (case load (data s) i h of
           Inl e \<Rightarrow> Inl e
         | Inr v \<Rightarrow>
             (case contains otherIntSet v h of
                Inl e \<Rightarrow> Inl e
              | Inr c \<Rightarrow> if \<not> c then Inr False else isSubsetOf_loop s otherIntSet h (i + 1)))
      else Inr True)"
  by pat_completeness auto
termination
  by (relation "measure (\<lambda>(s, otherIntSet, h, i). nat (used s - i))") auto

declare isSubsetOf_loop.simps [simp del]

definition isSubsetOf :: "IntSet \<Rightarrow> IntSet \<Rightarrow> heap \<Rightarrow> error + bool" where
  "isSubsetOf s otherIntSet h =
     (if isEmpty s then Inr True else isSubsetOf_loop s otherIntSet h 0)"

text \<open>
  \<^verbatim>\<open>void IntSet::DumpData(ostream& out) const\<close>. The stream is the list of the items
  written to it so far: a number, or a piece of text.
\<close>

datatype item = Num cint | Text string

function DumpData_loop :: "IntSet \<Rightarrow> heap \<Rightarrow> int \<Rightarrow> item list \<Rightarrow> error + item list" where
  "DumpData_loop s h i out =
     (if i < used s then
        (case load (data s) i h of
           Inl e \<Rightarrow> Inl e
         | Inr v \<Rightarrow> DumpData_loop s h (i + 1) (out @ [Text ''  '', Num v]))
      else Inr out)"
  by pat_completeness auto
termination
  by (relation "measure (\<lambda>(s, h, i, out). nat (used s - i))") auto

declare DumpData_loop.simps [simp del]

definition DumpData :: "IntSet \<Rightarrow> heap \<Rightarrow> item list \<Rightarrow> error + item list" where
  "DumpData s h out =
     (if used s > 0 then
        (case load (data s) 0 h of
           Inl e \<Rightarrow> Inl e
         | Inr v \<Rightarrow> DumpData_loop s h 1 (out @ [Num v]))
      else Inr out)"

text \<open>\<^verbatim>\<open>void IntSet::reset()\<close>\<close>

definition reset :: "IntSet \<Rightarrow> IntSet" where
  "reset s = s\<lparr>used := 0\<rparr>"

text \<open>
  The growth request \<^verbatim>\<open>int(1.5 * capacity) + 1\<close> of \<^verbatim>\<open>add\<close>. The product is computed in
  \<^verbatim>\<open>double\<close>, where three halves of a 32-bit integer are exact; the conversion to \<^verbatim>\<open>int\<close>
  truncates towards zero and is undefined when the truncated value is no \<^verbatim>\<open>int\<close>; the
  addition of 1 is undefined when it overflows.
\<close>

definition grow_request :: "int \<Rightarrow> error + int" where
  "grow_request c =
     (let t = (if 0 \<le> c then (3 * c) div 2 else - ((3 * (- c)) div 2))
      in if t < INT_MIN \<or> INT_MAX < t then Inl IntOverflow
         else if INT_MAX < t + 1 then Inl IntOverflow
         else Inr (t + 1))"

text \<open>\<^verbatim>\<open>bool IntSet::add(int anInt)\<close>\<close>

definition add :: "int \<Rightarrow> IntSet \<Rightarrow> cint \<Rightarrow> heap \<Rightarrow> error + (bool \<times> IntSet \<times> heap)" where
  "add DEFAULT_CAPACITY s anInt h =
     (case contains s anInt h of
        Inl e \<Rightarrow> Inl e
      | Inr c \<Rightarrow>
          if c = False then
            (case (if used s \<ge> capacity s then
                     (case grow_request (capacity s) of
                        Inl e \<Rightarrow> Inl e
                      | Inr n \<Rightarrow> resize DEFAULT_CAPACITY s n h)
                   else Inr (s, h)) of
               Inl e \<Rightarrow> Inl e
             | Inr (s1, h1) \<Rightarrow>
                 (case store (data s1) (used s1) anInt h1 of
                    Inl e \<Rightarrow> Inl e
                  | Inr h2 \<Rightarrow> Inr (True, s1\<lparr>used := used s1 + 1\<rparr>, h2)))
          else Inr (False, s, h))"

text \<open>
  \<^verbatim>\<open>bool IntSet::remove(int anInt)\<close>. The inner loop moves every element after position
  \<open>i\<close> back one index. The outer scan returns the set as the removal leaves it, or \<open>None\<close>
  when it runs to its end without finding \<open>anInt\<close>; \<open>remove\<close> then falls through to the
  \<^verbatim>\<open>return false\<close> at its end.
\<close>

function shift_loop :: "IntSet \<Rightarrow> int \<Rightarrow> heap \<Rightarrow> error + heap" where
  "shift_loop s j h =
     (if j < used s - 1 then
        (case load (data s) (j + 1) h of
           Inl e \<Rightarrow> Inl e
         | Inr v \<Rightarrow>
             (case store (data s) j v h of
                Inl e \<Rightarrow> Inl e
              | Inr h' \<Rightarrow> shift_loop s (j + 1) h'))
      else Inr h)"
  by pat_completeness auto
termination
  by (relation "measure (\<lambda>(s, j, h). nat (used s - j))") auto

declare shift_loop.simps [simp del]

function remove_loop :: "IntSet \<Rightarrow> cint \<Rightarrow> heap \<Rightarrow> int \<Rightarrow> error + (IntSet \<times> heap) option" where
  "remove_loop s anInt h i =
     (if i < used s then
        (case load (data s) i h of
           Inl e \<Rightarrow> Inl e
         | Inr v \<Rightarrow>
             if v = anInt then
               (case shift_loop s i h of
                  Inl e \<Rightarrow> Inl e
                | Inr h' \<Rightarrow> Inr (Some (s\<lparr>used := used s - 1\<rparr>, h')))
             else remove_loop s anInt h (i + 1))
      else Inr None)"
  by pat_completeness auto
termination
  by (relation "measure (\<lambda>(s, anInt, h, i). nat (used s - i))") auto

declare remove_loop.simps [simp del]

definition remove :: "IntSet \<Rightarrow> cint \<Rightarrow> heap \<Rightarrow> error + (bool \<times> IntSet \<times> heap)" where
  "remove s anInt h =
     (case contains s anInt h of
        Inl e \<Rightarrow> Inl e
      | Inr c \<Rightarrow>
          if c then
            (case remove_loop s anInt h 0 of
               Inl e \<Rightarrow> Inl e
             | Inr (Some (s', h')) \<Rightarrow> Inr (True, s', h')
             | Inr None \<Rightarrow> Inr (False, s, h))
          else Inr (False, s, h))"

text \<open>
  \<^verbatim>\<open>IntSet IntSet::unionWith(const IntSet& otherIntSet) const\<close>. The local set is
  copy-constructed from the invoking one and is itself the object returned: the copy that
  \<^verbatim>\<open>return\<close> may make of it is elided, here and in \<^verbatim>\<open>intersect\<close> and \<^verbatim>\<open>subtract\<close>.
\<close>

function unionWith_loop ::
  "int \<Rightarrow> IntSet \<Rightarrow> IntSet \<Rightarrow> int \<Rightarrow> int \<Rightarrow> heap \<Rightarrow> error + (IntSet \<times> heap)" where
  "unionWith_loop DEFAULT_CAPACITY unionSet otherIntSet otherSize i h =
     (if i < otherSize then
        (case load (data otherIntSet) i h of
           Inl e \<Rightarrow> Inl e
         | Inr v \<Rightarrow>
             (case contains unionSet v h of
                Inl e \<Rightarrow> Inl e
              | Inr c \<Rightarrow>
                  if c = False then
                    (case load (data otherIntSet) i h of
                       Inl e \<Rightarrow> Inl e
                     | Inr v' \<Rightarrow>
                         (case add DEFAULT_CAPACITY unionSet v' h of
                            Inl e \<Rightarrow> Inl e
                          | Inr (r, unionSet', h') \<Rightarrow>
                              unionWith_loop DEFAULT_CAPACITY unionSet' otherIntSet otherSize
                                (i + 1) h'))
                  else unionWith_loop DEFAULT_CAPACITY unionSet otherIntSet otherSize (i + 1) h))
      else Inr (unionSet, h))"
  by pat_completeness auto
termination
  by (relation "measure (\<lambda>(dc, unionSet, otherIntSet, otherSize, i, h). nat (otherSize - i))")
    auto

declare unionWith_loop.simps [simp del]

definition unionWith :: "int \<Rightarrow> IntSet \<Rightarrow> IntSet \<Rightarrow> heap \<Rightarrow> error + (IntSet \<times> heap)" where
  "unionWith DEFAULT_CAPACITY s otherIntSet h =
     (case IntSet_copy s h of
        Inl e \<Rightarrow> Inl e
      | Inr (unionSet, h1) \<Rightarrow>
          unionWith_loop DEFAULT_CAPACITY unionSet otherIntSet (size_IntSet otherIntSet) 0 h1)"

text \<open>\<^verbatim>\<open>IntSet IntSet::intersect(const IntSet& otherIntSet) const\<close>\<close>

function intersect_loop ::
  "IntSet \<Rightarrow> IntSet \<Rightarrow> IntSet \<Rightarrow> int \<Rightarrow> heap \<Rightarrow> error + (IntSet \<times> heap)" where
  "intersect_loop s intersectSet otherIntSet i h =
     (if i < size_IntSet s then
        (case load (data s) i h of
           Inl e \<Rightarrow> Inl e
         | Inr v \<Rightarrow>
             (case contains otherIntSet v h of
                Inl e \<Rightarrow> Inl e
              | Inr c \<Rightarrow>
                  if c = False then
                    (case load (data s) i h of
                       Inl e \<Rightarrow> Inl e
                     | Inr v' \<Rightarrow>
                         (case remove intersectSet v' h of
                            Inl e \<Rightarrow> Inl e
                          | Inr (r, intersectSet', h') \<Rightarrow>
                              intersect_loop s intersectSet' otherIntSet (i + 1) h'))
                  else intersect_loop s intersectSet otherIntSet (i + 1) h))
      else Inr (intersectSet, h))"
  by pat_completeness auto
termination
  by (relation "measure (\<lambda>(s, intersectSet, otherIntSet, i, h). nat (used s - i))")
    (auto simp: size_IntSet_def)

declare intersect_loop.simps [simp del]

definition intersect :: "IntSet \<Rightarrow> IntSet \<Rightarrow> heap \<Rightarrow> error + (IntSet \<times> heap)" where
  "intersect s otherIntSet h =
     (case IntSet_copy s h of
        Inl e \<Rightarrow> Inl e
      | Inr (intersectSet, h1) \<Rightarrow> intersect_loop s intersectSet otherIntSet 0 h1)"

text \<open>\<^verbatim>\<open>IntSet IntSet::subtract(const IntSet& otherIntSet) const\<close>\<close>

function subtract_loop ::
  "IntSet \<Rightarrow> IntSet \<Rightarrow> int \<Rightarrow> int \<Rightarrow> heap \<Rightarrow> error + (IntSet \<times> heap)" where
  "subtract_loop subSet otherIntSet otherSize i h =
     (if i < otherSize then
        (case load (data otherIntSet) i h of
           Inl e \<Rightarrow> Inl e
         | Inr v \<Rightarrow>
             (case contains subSet v h of
                Inl e \<Rightarrow> Inl e
              | Inr c \<Rightarrow>
                  if c then
                    (case load (data otherIntSet) i h of
                       Inl e \<Rightarrow> Inl e
                     | Inr v' \<Rightarrow>
                         (case remove subSet v' h of
                            Inl e \<Rightarrow> Inl e
                          | Inr (r, subSet', h') \<Rightarrow>
                              subtract_loop subSet' otherIntSet otherSize (i + 1) h'))
                  else subtract_loop subSet otherIntSet otherSize (i + 1) h))
      else Inr (subSet, h))"
  by pat_completeness auto
termination
  by (relation "measure (\<lambda>(subSet, otherIntSet, otherSize, i, h). nat (otherSize - i))") auto

declare subtract_loop.simps [simp del]

definition subtract :: "IntSet \<Rightarrow> IntSet \<Rightarrow> heap \<Rightarrow> error + (IntSet \<times> heap)" where
  "subtract s otherIntSet h =
     (case IntSet_copy s h of
        Inl e \<Rightarrow> Inl e
      | Inr (subSet, h1) \<Rightarrow> subtract_loop subSet otherIntSet (size_IntSet otherIntSet) 0 h1)"

text \<open>\<^verbatim>\<open>bool operator==(const IntSet& is1, const IntSet& is2)\<close>\<close>

definition equals :: "IntSet \<Rightarrow> IntSet \<Rightarrow> heap \<Rightarrow> error + bool" where
  "equals is1 is2 h =
     (if size_IntSet is1 \<noteq> size_IntSet is2 then Inr False
      else
        (case isSubsetOf is1 is2 h of
           Inl e \<Rightarrow> Inl e
         | Inr a \<Rightarrow>
             if a then
               (case isSubsetOf is2 is1 h of
                  Inl e \<Rightarrow> Inl e
                | Inr b \<Rightarrow> if b then Inr True else Inr False)
             else Inr False))"

section \<open>Several objects: assignment and sequences of operations\<close>

text \<open>
  A program holds a number of IntSet objects and one free store. An object is named by its
  position in \<open>objs\<close>, which stands for its address: two references are to the same object
  exactly when the positions are equal.
\<close>

record world =
  objs :: "IntSet list"
  mem :: heap

text \<open>
  \<^verbatim>\<open>IntSet& IntSet::operator=(const IntSet& rhs)\<close>. Its guard \<^verbatim>\<open>this == &rhs\<close> compares the
  addresses of two objects, so the operation is modelled on the program state, with the
  references \<open>this\<close> and \<open>rhs\<close> as positions in \<open>objs\<close>.
\<close>

definition operator_assign :: "nat \<Rightarrow> nat \<Rightarrow> world \<Rightarrow> error + world" where
  "operator_assign this rhs w =
     (if \<not> (this < length (objs w) \<and> rhs < length (objs w)) then Inl NoSuchObject
      else if this = rhs then Inr w
      else
        (case new_array (capacity (objs w ! rhs)) (mem w) of
           Inl e \<Rightarrow> Inl e
         | Inr (temp, h1) \<Rightarrow>
             (case copy_loop temp (data (objs w ! rhs)) (used (objs w ! rhs)) 0 h1 of
                Inl e \<Rightarrow> Inl e
              | Inr h2 \<Rightarrow>
                  (case delete_array (data (objs w ! this)) h2 of
                     Inl e \<Rightarrow> Inl e
                   | Inr h3 \<Rightarrow>
                       Inr \<lparr>objs = (objs w)[this :=
                                    \<lparr>data = temp, capacity = capacity (objs w ! rhs),
                                     used = used (objs w ! rhs)\<rparr>],
                            mem = h3\<rparr>))))"

text \<open>
  The statements of a client program that construct and change sets: a declaration with
  an initial capacity, a declaration as a copy of an existing set, an assignment, and the
  three mutators. The return values of \<^verbatim>\<open>add\<close> and \<^verbatim>\<open>remove\<close> are dropped.
\<close>

datatype op =
    Construct int
  | CopyConstruct nat
  | Assign nat nat
  | Add nat cint
  | Remove nat cint
  | Reset nat

fun step :: "int \<Rightarrow> op \<Rightarrow> world \<Rightarrow> error + world" where
  "step DEFAULT_CAPACITY (Construct n) w =
     (case IntSet_ctor DEFAULT_CAPACITY n (mem w) of
        Inl e \<Rightarrow> Inl e
      | Inr (s, h) \<Rightarrow> Inr \<lparr>objs = objs w @ [s], mem = h\<rparr>)"
| "step DEFAULT_CAPACITY (CopyConstruct j) w =
     (if j < length (objs w) then
        (case IntSet_copy (objs w ! j) (mem w) of
           Inl e \<Rightarrow> Inl e
         | Inr (s, h) \<Rightarrow> Inr \<lparr>objs = objs w @ [s], mem = h\<rparr>)
      else Inl NoSuchObject)"
| "step DEFAULT_CAPACITY (Assign i j) w = operator_assign i j w"
| "step DEFAULT_CAPACITY (Add i x) w =
     (if i < length (objs w) then
        (case add DEFAULT_CAPACITY (objs w ! i) x (mem w) of
           Inl e \<Rightarrow> Inl e
         | Inr (r, s, h) \<Rightarrow> Inr \<lparr>objs = (objs w)[i := s], mem = h\<rparr>)
      else Inl NoSuchObject)"
| "step DEFAULT_CAPACITY (Remove i x) w =
     (if i < length (objs w) then
        (case remove (objs w ! i) x (mem w) of
           Inl e \<Rightarrow> Inl e
         | Inr (r, s, h) \<Rightarrow> Inr \<lparr>objs = (objs w)[i := s], mem = h\<rparr>)
      else Inl NoSuchObject)"
| "step DEFAULT_CAPACITY (Reset i) w =
     (if i < length (objs w) then Inr (w\<lparr>objs := (objs w)[i := reset (objs w ! i)]\<rparr>)
      else Inl NoSuchObject)"

fun run :: "int \<Rightarrow> op list \<Rightarrow> world \<Rightarrow> error + world" where
  "run DEFAULT_CAPACITY [] w = Inr w"
| "run DEFAULT_CAPACITY (c # cs) w =
     (case step DEFAULT_CAPACITY c w of
        Inl e \<Rightarrow> Inl e
      | Inr w' \<Rightarrow> run DEFAULT_CAPACITY cs w')"


section \<open>The class invariant and the abstract value\<close>

text \<open>
  The values held by the initialised cells among the first \<open>used\<close> cells of the array,
  in array order: the collection the object represents.
\<close>

primrec cell_values :: "cell list \<Rightarrow> cint list" where
  "cell_values [] = []"
| "cell_values (c # cs) = (case c of None \<Rightarrow> cell_values cs | Some v \<Rightarrow> v # cell_values cs)"

definition elems :: "IntSet \<Rightarrow> heap \<Rightarrow> cint list" where
  "elems s h =
     (if data s < length h then
        (case h ! data s of
           None \<Rightarrow> []
         | Some cs \<Rightarrow> cell_values (take (nat (used s)) cs))
      else [])"

text \<open>
  The class invariant, as the constructors establish it and the header comment of the
  source describes it: \<open>data\<close> points to a live array of \<open>capacity\<close> cells, the capacity
  is at least 1, \<open>0 \<le> used \<le> capacity\<close>, and the first \<open>used\<close> cells are initialised and
  hold pairwise distinct values. The cells from \<open>used\<close> on may hold anything.
\<close>

definition IntSet_inv :: "IntSet \<Rightarrow> heap \<Rightarrow> bool" where
  "IntSet_inv s h =
     (data s < length h \<and>
      (case h ! data s of
         None \<Rightarrow> False
       | Some cs \<Rightarrow>
           int (length cs) = capacity s \<and> 1 \<le> capacity s \<and>
           0 \<le> used s \<and> used s \<le> capacity s \<and>
           list_all (\<lambda>c. c \<noteq> None) (take (nat (used s)) cs) \<and>
           distinct (take (nat (used s)) cs)))"

text \<open>
  The same, with the contents named: the array of \<open>s\<close> is the values \<open>xs\<close>, each in an
  initialised cell, followed by the cells \<open>rest\<close> that the object does not use.
\<close>

definition holds :: "IntSet \<Rightarrow> heap \<Rightarrow> cint list \<Rightarrow> cell list \<Rightarrow> bool" where
  "holds s h xs rest =
     (data s < length h \<and> h ! data s = Some (map Some xs @ rest) \<and>
      used s = int (length xs) \<and> capacity s = int (length xs + length rest))"


text \<open>
  The largest capacity whose growth request \<^verbatim>\<open>int(1.5 * capacity) + 1\<close> is an \<^verbatim>\<open>int\<close>:
  three halves of 1431655764 are 2147483646.
\<close>

definition MAX_GROWABLE :: int where
  "MAX_GROWABLE = 1431655764"

text \<open>
  What a mutator of the set whose array is at \<open>p\<close> leaves alone: the store does not shrink,
  and every array that existed, other than the one at \<open>p\<close>, is as it was.
\<close>

definition frame :: "addr \<Rightarrow> heap \<Rightarrow> heap \<Rightarrow> bool" where
  "frame p h h' \<longleftrightarrow> length h \<le> length h' \<and> (\<forall>q<length h. q \<noteq> p \<longrightarrow> h' ! q = h ! q)"

text \<open>
  A set that is full: \<open>n\<close> elements, the numbers from 0 to \<open>n - 1\<close> in this order, in an
  array of exactly \<open>n\<close> cells, alone in the store.
\<close>

definition full_set :: "nat \<Rightarrow> IntSet" where
  "full_set n = \<lparr>data = 0, capacity = int n, used = int n\<rparr>"

definition full_store :: "nat \<Rightarrow> heap" where
  "full_store n = [Some (map (\<lambda>k. Some (word_of_nat k)) [0..<n])]"

text \<open>
  What it is for \<open>R\<close>, in the store \<open>h'\<close>, to be a new set that is independent of the sets
  \<open>A\<close> and \<open>B\<close> of the store \<open>h\<close>: \<open>R\<close> satisfies the class invariant, its array was
  allocated after everything in \<open>h\<close>, all of \<open>h\<close> is in \<open>h'\<close> as it was, and so \<open>A\<close> and
  \<open>B\<close> still satisfy the invariant and hold the elements they held, in the same order.
\<close>

definition result_independent :: "IntSet \<Rightarrow> IntSet \<Rightarrow> heap \<Rightarrow> IntSet \<Rightarrow> heap \<Rightarrow> bool" where
  "result_independent A B h R h' =
     (IntSet_inv R h' \<and> length h \<le> data R \<and> take (length h) h' = h \<and>
      IntSet_inv A h' \<and> IntSet_inv B h' \<and>
      elems A h' = elems A h \<and> elems B h' = elems B h)"






text \<open>
  The store of two sets: the full set of the numbers from 0 to \<open>n - 1\<close>, and after it the
  set that holds the one value -1.
\<close>

definition minus_one_set :: IntSet where
  "minus_one_set = \<lparr>data = 1, capacity = 1, used = 1\<rparr>"

definition pair_store :: "nat \<Rightarrow> heap" where
  "pair_store n = full_store n @ [Some [Some (- 1)]]"

section \<open>What the operations compute, on lists\<close>

text \<open>The items \<^verbatim>\<open>DumpData\<close> writes for the values \<open>xs\<close>.\<close>

primrec dump_items :: "cint list \<Rightarrow> item list" where
  "dump_items [] = []"
| "dump_items (x # xs) = Num x # concat (map (\<lambda>v. [Text ''  '', Num v]) xs)"

text \<open>
  The loops of \<^verbatim>\<open>unionWith\<close>, \<^verbatim>\<open>intersect\<close> and \<^verbatim>\<open>subtract\<close> on the list of values:
  \<open>zs\<close> is the content of the local set, and the last argument is what the loop has still
  to visit.
\<close>

fun union_items :: "cint list \<Rightarrow> cint list \<Rightarrow> cint list" where
  "union_items zs [] = zs"
| "union_items zs (y # ys) =
     (if y \<in> set zs then union_items zs ys else union_items (zs @ [y]) ys)"

fun intersect_items :: "cint list \<Rightarrow> cint list \<Rightarrow> cint list \<Rightarrow> cint list" where
  "intersect_items ys zs [] = zs"
| "intersect_items ys zs (x # xs) =
     (if x \<in> set ys then intersect_items ys zs xs else intersect_items ys (remove1 x zs) xs)"

fun subtract_items :: "cint list \<Rightarrow> cint list \<Rightarrow> cint list" where
  "subtract_items zs [] = zs"
| "subtract_items zs (y # ys) = subtract_items (remove1 y zs) ys"

section \<open>The store and the array of a set\<close>

lemma load_cell:
  "p < length h \<Longrightarrow> h ! p = Some cs \<Longrightarrow> i < length cs \<Longrightarrow> cs ! i = Some v \<Longrightarrow>
   load p (int i) h = Inr v"
  by (simp add: load_def)

lemma store_cell:
  "p < length h \<Longrightarrow> h ! p = Some cs \<Longrightarrow> i < length cs \<Longrightarrow>
   store p (int i) v h = Inr (h[p := Some (cs[i := Some v])])"
  by (simp add: store_def)

lemma copy_loop_spec:
  assumes "src < length h" "dst < length h" "src \<noteq> dst"
    and "h ! src = Some ss" "h ! dst = Some ds"
    and "n \<le> length ss" "n \<le> length ds" "i \<le> n"
    and "\<forall>k<n. ss ! k \<noteq> None"
  shows "copy_loop dst src (int n) (int i) h =
         Inr (h[dst := Some (take i ds @ drop i (take n ss) @ drop n ds)])"
  using assms
proof (induction "n - i" arbitrary: i h ds)
  case 0
  then have "i = n" by simp
  with 0 show ?case
    by (subst copy_loop.simps) (simp, metis list_update_id)
next
  case (Suc d)
  then have lt: "i < n" by simp
  from Suc.prems lt obtain v where v: "ss ! i = Some v" by (metis not_None_eq)
  have ld: "load src (int i) h = Inr v"
    using Suc.prems lt v by (intro load_cell) auto
  have st: "store dst (int i) v h = Inr (h[dst := Some (ds[i := Some v])])"
    using Suc.prems lt by (intro store_cell) auto
  let ?h = "h[dst := Some (ds[i := Some v])]"
  have IH: "copy_loop dst src (int n) (int (Suc i)) ?h =
            Inr (?h[dst := Some (take (Suc i) (ds[i := Some v]) @ drop (Suc i) (take n ss) @ drop n (ds[i := Some v]))])"
    using Suc.prems lt Suc.hyps(2)
    by (intro Suc.hyps(1)) auto
  have l1: "take (Suc i) (ds[i := Some v]) = take i ds @ [Some v]"
    using Suc.prems lt by (simp add: take_Suc_conv_app_nth)
  have l2: "drop i (take n ss) = Some v # drop (Suc i) (take n ss)"
    using Suc.prems lt v by (metis Cons_nth_drop_Suc length_take min.absorb2 nth_take)
  have l3: "drop n (ds[i := Some v]) = drop n ds"
    using lt by simp
  have i1: "int i + 1 = int (Suc i)" by simp
  show ?case
    using lt by (subst copy_loop.simps) (simp add: ld st IH [folded i1] l1 l2 l3)
qed



lemma cell_values_map_Some [simp]: "cell_values (map Some xs) = xs"
  by (induction xs) simp_all

lemma holds_elems: "holds s h xs rest \<Longrightarrow> elems s h = xs"
  by (simp add: holds_def elems_def)

lemma all_Some_map: "list_all (\<lambda>c. c \<noteq> None) cs \<Longrightarrow> map Some (cell_values cs) = cs"
  by (induction cs) auto

lemma IntSet_inv_holds:
  "IntSet_inv s h \<longleftrightarrow> (\<exists>xs rest. holds s h xs rest \<and> distinct xs \<and> 1 \<le> capacity s)"
proof
  assume inv: "IntSet_inv s h"
  then obtain cs where cs: "data s < length h" "h ! data s = Some cs"
    "int (length cs) = capacity s" "1 \<le> capacity s" "0 \<le> used s" "used s \<le> capacity s"
    "list_all (\<lambda>c. c \<noteq> None) (take (nat (used s)) cs)" "distinct (take (nat (used s)) cs)"
    by (auto simp: IntSet_inv_def split: option.splits)
  let ?xs = "cell_values (take (nat (used s)) cs)"
  have m: "map Some ?xs = take (nat (used s)) cs" using cs(7) by (rule all_Some_map)
  have "holds s h ?xs (drop (nat (used s)) cs)"
    unfolding holds_def using cs m
    by (auto simp: append_take_drop_id dest: arg_cong [where f = length])
  moreover have "distinct ?xs" using cs(8) m by (metis distinct_map)
  ultimately show "\<exists>xs rest. holds s h xs rest \<and> distinct xs \<and> 1 \<le> capacity s"
    using cs(4) by blast
next
  assume "\<exists>xs rest. holds s h xs rest \<and> distinct xs \<and> 1 \<le> capacity s"
  then show "IntSet_inv s h"
    by (auto simp: IntSet_inv_def holds_def list_all_iff distinct_map)
qed

lemma holds_load:
  "holds s h xs rest \<Longrightarrow> i < length xs \<Longrightarrow> load (data s) (int i) h = Inr (xs ! i)"
  by (rule load_cell [where cs = "map Some xs @ rest"]) (auto simp: holds_def nth_append)

lemma contains_loop_spec:
  assumes "holds s h xs rest" "i \<le> length xs"
  shows "contains_loop s x h (int i) = Inr (x \<in> set (drop i xs))"
  using assms
proof (induction "length xs - i" arbitrary: i)
  case 0
  then show ?case by (subst contains_loop.simps) (simp add: holds_def)
next
  case (Suc d)
  then have lt: "i < length xs" by simp
  have u: "int i < used s" using Suc.prems lt by (simp add: holds_def)
  have IH: "contains_loop s x h (int i + 1) = Inr (x \<in> set (drop (Suc i) xs))"
    using Suc.hyps(1) [of "Suc i"] Suc.hyps(2) Suc.prems lt by (simp add: add.commute)
  have d: "drop i xs = xs ! i # drop (Suc i) xs" using lt by (simp add: Cons_nth_drop_Suc)
  show ?case
    using u by (subst contains_loop.simps) (auto simp: holds_load [OF Suc.prems(1) lt] IH d)
qed

lemma contains_spec:
  assumes "holds s h xs rest"
  shows "contains s x h = Inr (x \<in> set xs)"
proof (cases "used s > 0")
  case True
  then show ?thesis using contains_loop_spec [OF assms, of 0 x] by (simp add: contains_def)
next
  case False
  then have "xs = []" using assms by (simp add: holds_def)
  then show ?thesis using False by (simp add: contains_def)
qed

lemma isSubsetOf_loop_spec:
  assumes "holds s h xs rest" "holds t h ys rest'" "i \<le> length xs"
  shows "isSubsetOf_loop s t h (int i) = Inr (set (drop i xs) \<subseteq> set ys)"
  using assms
proof (induction "length xs - i" arbitrary: i)
  case 0
  then show ?case by (subst isSubsetOf_loop.simps) (simp add: holds_def)
next
  case (Suc d)
  then have lt: "i < length xs" by simp
  have u: "int i < used s" using Suc.prems lt by (simp add: holds_def)
  have IH: "isSubsetOf_loop s t h (int i + 1) = Inr (set (drop (Suc i) xs) \<subseteq> set ys)"
    using Suc.hyps(1) [of "Suc i"] Suc.hyps(2) Suc.prems lt by (simp add: add.commute)
  have d: "drop i xs = xs ! i # drop (Suc i) xs" using lt by (simp add: Cons_nth_drop_Suc)
  show ?case
    using u by (subst isSubsetOf_loop.simps)
      (auto simp: holds_load [OF Suc.prems(1) lt] contains_spec [OF Suc.prems(2)] IH d)
qed

lemma isSubsetOf_spec:
  assumes "holds s h xs rest" "holds t h ys rest'"
  shows "isSubsetOf s t h = Inr (set xs \<subseteq> set ys)"
proof (cases "used s = 0")
  case True
  then have "xs = []" using assms by (simp add: holds_def)
  then show ?thesis using True by (simp add: isSubsetOf_def isEmpty_def)
next
  case False
  then show ?thesis
    using isSubsetOf_loop_spec [OF assms, of 0] by (simp add: isSubsetOf_def isEmpty_def)
qed

lemma equals_spec:
  assumes "holds s h xs rest" "holds t h ys rest'" "distinct xs" "distinct ys"
  shows "equals s t h = Inr (set xs = set ys)"
proof (cases "length xs = length ys")
  case True
  then show ?thesis
    using assms by (auto simp: equals_def size_IntSet_def holds_def isSubsetOf_spec [OF assms(1,2)]
        isSubsetOf_spec [OF assms(2,1)])
next
  case False
  have "set xs \<noteq> set ys" using False assms(3,4) by (metis distinct_card)
  then show ?thesis
    using False assms by (simp add: equals_def size_IntSet_def holds_def)
qed

lemma grow_request_ok:
  "1 \<le> c \<Longrightarrow> c \<le> MAX_GROWABLE \<Longrightarrow> grow_request c = Inr ((3 * c) div 2 + 1)"
proof -
  assume a: "1 \<le> c" "c \<le> MAX_GROWABLE"
  have "(3 * c) div 2 \<le> 2147483646" "0 \<le> (3 * c) div 2"
    using a by (simp_all add: MAX_GROWABLE_def)
  then show ?thesis
    using a by (simp add: grow_request_def INT_MAX_def INT_MIN_def Let_def)
qed

lemma grow_request_overflow:
  "MAX_GROWABLE < c \<Longrightarrow> grow_request c = Inl IntOverflow"
  by (auto simp add: grow_request_def MAX_GROWABLE_def INT_MAX_def INT_MIN_def Let_def)

lemma new_array_ok: "0 \<le> n \<Longrightarrow> new_array n h = Inr (length h, h @ [Some (replicate (nat n) None)])"
  by (simp add: new_array_def)

lemma delete_array_ok:
  "p < length h \<Longrightarrow> h ! p = Some cs \<Longrightarrow> delete_array p h = Inr (h[p := None])"
  by (simp add: delete_array_def)

lemma copy_into_fresh:
  assumes "holds s h xs rest" "length xs \<le> n"
  shows "copy_loop (length h) (data s) (int (length xs)) 0 (h @ [Some (replicate n None)]) =
         Inr (h @ [Some (map Some xs @ replicate (n - length xs) None)])"
proof -
  let ?h = "h @ [Some (replicate n None)]"
  have p: "data s < length h" "h ! data s = Some (map Some xs @ rest)"
    using assms by (simp_all add: holds_def)
  have "copy_loop (length h) (data s) (int (length xs)) (int 0) ?h =
        Inr (?h[length h := Some (take 0 (replicate n None) @
              drop 0 (take (length xs) (map Some xs @ rest)) @ drop (length xs) (replicate n None))])"
    using p assms(2)
    by (intro copy_loop_spec) (auto simp: nth_append)
  then show ?thesis by simp
qed

lemma resize_spec:
  assumes "holds s h xs rest"
    and "c' = (if n \<le> 0 then DC else if n < used s then used s else n)"
    and "int (length xs) \<le> c'"
  shows "resize DC s n h =
         Inr (\<lparr>data = length h, capacity = c', used = used s\<rparr>,
              (h @ [Some (map Some xs @ replicate (nat c' - length xs) None)])[data s := None])"
proof -
  have p: "data s < length h" "h ! data s = Some (map Some xs @ rest)" "used s = int (length xs)"
    using assms by (simp_all add: holds_def)
  have c0: "0 \<le> c'" using assms(3) by linarith
  have cp: "copy_loop (length h) (data s) (int (length xs)) 0 (h @ [Some (replicate (nat c') None)]) =
         Inr (h @ [Some (map Some xs @ replicate (nat c' - length xs) None)])"
    using assms(1,3) by (intro copy_into_fresh) auto
  have del: "delete_array (data s) (h @ [Some (map Some xs @ replicate (nat c' - length xs) None)]) =
         Inr ((h @ [Some (map Some xs @ replicate (nat c' - length xs) None)])[data s := None])"
    using p by (intro delete_array_ok [where cs = "map Some xs @ rest"]) (auto simp: nth_append)
  have s1: "(if n \<le> 0 then s\<lparr>capacity := DC\<rparr>
             else if n < used s then s\<lparr>capacity := used s\<rparr>
             else s\<lparr>capacity := n\<rparr>) = s\<lparr>capacity := c'\<rparr>"
    by (simp add: assms(2))
  show ?thesis
    unfolding resize_def s1 Let_def
    using c0 p(3) cp del
    by (simp add: new_array_ok)
qed

lemma IntSet_copy_spec:
  assumes "holds s h xs rest"
  shows "IntSet_copy s h =
         Inr (\<lparr>data = length h, capacity = capacity s, used = used s\<rparr>,
              h @ [Some (map Some xs @ replicate (length rest) None)])"
proof -
  have p: "used s = int (length xs)" "capacity s = int (length xs + length rest)"
    using assms by (simp_all add: holds_def)
  have cp: "copy_loop (length h) (data s) (int (length xs)) 0
               (h @ [Some (replicate (length xs + length rest) None)]) =
         Inr (h @ [Some (map Some xs @ replicate (length xs + length rest - length xs) None)])"
    using assms by (intro copy_into_fresh) auto
  show ?thesis
    using p cp by (simp add: IntSet_copy_def new_array_ok del: of_nat_add)
qed

lemma holds_store_next:
  assumes "holds s h xs (c # rest)"
  shows "store (data s) (used s) x h = Inr (h[data s := Some (map Some (xs @ [x]) @ rest)])"
proof -
  have p: "data s < length h" "h ! data s = Some (map Some xs @ c # rest)"
    "used s = int (length xs)"
    using assms by (simp_all add: holds_def)
  have "store (data s) (int (length xs)) x h =
        Inr (h[data s := Some ((map Some xs @ c # rest)[length xs := Some x])])"
    using p by (intro store_cell) auto
  then show ?thesis by (simp add: p(3) list_update_append)
qed

lemma add_present:
  "holds s h xs rest \<Longrightarrow> x \<in> set xs \<Longrightarrow> add DC s x h = Inr (False, s, h)"
  by (simp add: add_def contains_spec)

lemma add_room:
  assumes "holds s h xs (c # rest)" "x \<notin> set xs"
  shows "add DC s x h =
         Inr (True, s\<lparr>used := used s + 1\<rparr>, h[data s := Some (map Some (xs @ [x]) @ rest)])"
proof -
  have "used s < capacity s" using assms(1) by (simp add: holds_def)
  then show ?thesis
    using assms(2) by (simp add: add_def contains_spec [OF assms(1)] holds_store_next [OF assms(1)])
qed

lemma add_full_overflow:
  assumes "holds s h xs []" "x \<notin> set xs" "grow_request (capacity s) = Inl e"
  shows "add DC s x h = Inl e"
proof -
  have "used s = capacity s" using assms(1) by (simp add: holds_def)
  then show ?thesis
    using assms(2,3) by (simp add: add_def contains_spec [OF assms(1)])
qed

lemma add_full:
  assumes "holds s h xs []" "x \<notin> set xs" "grow_request (capacity s) = Inr n" "capacity s < n"
  shows "add DC s x h =
         Inr (True, \<lparr>data = length h, capacity = n, used = used s + 1\<rparr>,
              (h @ [Some (map Some (xs @ [x]) @ replicate (nat n - length xs - 1) None)])
                [data s := None])"
proof -
  have p: "used s = capacity s" "used s = int (length xs)" "data s < length h"
    using assms(1) by (simp_all add: holds_def)
  let ?s1 = "\<lparr>data = length h, capacity = n, used = used s\<rparr>"
  let ?h1 = "(h @ [Some (map Some xs @ replicate (nat n - length xs) None)])[data s := None]"
  have rs: "resize DC s n h = Inr (?s1, ?h1)"
    using assms(4) p by (intro resize_spec [OF assms(1)]) auto
  have r: "replicate (nat n - length xs) (None :: cell) = None # replicate (nat n - length xs - 1) None"
    using assms(4) p by (cases "nat n - length xs") auto
  have "holds ?s1 ?h1 xs (None # replicate (nat n - length xs - 1) None)"
    using p assms(4) r by (auto simp: holds_def nth_append)
  from holds_store_next [OF this, of x]
  have st: "store (length h) (used s) x ?h1 =
        Inr (?h1[length h := Some (map Some (xs @ [x]) @ replicate (nat n - length xs - 1) None)])"
    by simp
  have fin: "?h1[length h := Some (map Some (xs @ [x]) @ replicate (nat n - length xs - 1) None)] =
        (h @ [Some (map Some (xs @ [x]) @ replicate (nat n - length xs - 1) None)])[data s := None]"
    using p(3) by (simp add: list_update_swap [of "data s" "length h"] list_update_append)
  show ?thesis
    using assms(2,3) p(1) rs st fin
    by (simp add: add_def contains_spec [OF assms(1)])
qed

lemma shift_loop_spec:
  assumes "data s < length h" "h ! data s = Some cs" "used s = int u" "u \<le> length cs"
    and "j < u" "\<forall>k<u. cs ! k \<noteq> None"
  shows "shift_loop s (int j) h =
         Inr (h[data s := Some (take j cs @ drop (Suc j) (take u cs) @ drop (u - 1) cs)])"
  using assms
proof (induction "u - 1 - j" arbitrary: j h cs)
  case 0
  then have j: "Suc j = u" by simp
  have "take j cs @ drop (u - 1) cs = cs" using j by (metis append_take_drop_id diff_Suc_1)
  then have "h[data s := Some (take j cs @ drop (Suc j) (take u cs) @ drop (u - 1) cs)] = h"
    using 0 j by (simp, metis list_update_id)
  moreover have "\<not> int j < used s - 1" using 0 j by simp
  ultimately show ?case by (subst shift_loop.simps) simp
next
  case (Suc d)
  then have lt: "Suc j < u" by simp
  from Suc.prems lt obtain v where v: "cs ! Suc j = Some v" by (metis not_None_eq)
  have ld: "load (data s) (int j + 1) h = Inr v"
    using load_cell [of "data s" h cs "Suc j" v] Suc.prems lt v by (simp add: add.commute)
  have st: "store (data s) (int j) v h = Inr (h[data s := Some (cs[j := Some v])])"
    using Suc.prems lt by (intro store_cell) auto
  let ?cs = "cs[j := Some v]"
  let ?h = "h[data s := Some ?cs]"
  have "shift_loop s (int (Suc j)) ?h =
        Inr (?h[data s := Some (take (Suc j) ?cs @ drop (Suc (Suc j)) (take u ?cs) @ drop (u - 1) ?cs)])"
    using Suc.prems lt Suc.hyps(2)
    by (intro Suc.hyps(1)) (auto simp: nth_list_update)
  then have IH: "shift_loop s (int j + 1) ?h =
        Inr (?h[data s := Some (take (Suc j) ?cs @ drop (Suc (Suc j)) (take u ?cs) @ drop (u - 1) ?cs)])"
    by (simp add: add.commute)
  have l1: "take (Suc j) ?cs = take j cs @ [Some v]"
    using Suc.prems lt by (simp add: take_Suc_conv_app_nth)
  have l2: "drop (Suc j) (take u cs) = Some v # drop (Suc (Suc j)) (take u cs)"
    using Suc.prems lt v by (metis Cons_nth_drop_Suc length_take min.absorb2 nth_take)
  have l3: "drop (Suc (Suc j)) (take u ?cs) = drop (Suc (Suc j)) (take u cs)"
    by (simp add: drop_take)
  have l4: "drop (u - Suc 0) ?cs = drop (u - Suc 0) cs"
    using lt by simp
  have c: "int j < used s - 1" using lt Suc.prems by simp
  show ?case
    using c by (subst shift_loop.simps) (simp add: ld st IH l1 l2 l3 l4)
qed

lemma shift_loop_holds:
  assumes "holds s h xs rest" "i < length xs"
  shows "shift_loop s (int i) h =
         Inr (h[data s := Some (map Some (take i xs @ drop (Suc i) xs) @ Some (last xs) # rest)])"
proof -
  let ?cs = "map Some xs @ rest"
  have p: "data s < length h" "h ! data s = Some ?cs" "used s = int (length xs)"
    using assms by (simp_all add: holds_def)
  have "shift_loop s (int i) h =
        Inr (h[data s := Some (take i ?cs @ drop (Suc i) (take (length xs) ?cs) @
               drop (length xs - 1) ?cs)])"
    using p assms(2) by (intro shift_loop_spec) (auto simp: nth_append)
  moreover have "drop (length xs - 1) xs = [last xs]"
    using assms(2)
    by (metis append_butlast_last_id append_eq_conv_conj length_butlast length_greater_0_conv
        less_nat_zero_code list.size(3))
  ultimately show ?thesis
    using assms(2) by (simp add: take_map drop_map)
qed

lemma remove_loop_spec:
  assumes "holds s h xs rest" "i \<le> length xs"
  shows "remove_loop s x h (int i) =
         (if x \<in> set (drop i xs) then
            Inr (Some (s\<lparr>used := used s - 1\<rparr>,
              h[data s := Some (map Some (take i xs @ remove1 x (drop i xs)) @ Some (last xs) # rest)]))
          else Inr None)"
  using assms
proof (induction "length xs - i" arbitrary: i)
  case 0
  then show ?case by (subst remove_loop.simps) (simp add: holds_def)
next
  case (Suc d)
  then have lt: "i < length xs" by simp
  have u: "int i < used s" using Suc.prems lt by (simp add: holds_def)
  have IH: "remove_loop s x h (int i + 1) =
         (if x \<in> set (drop (Suc i) xs) then
            Inr (Some (s\<lparr>used := used s - 1\<rparr>,
              h[data s := Some (map Some (take (Suc i) xs @ remove1 x (drop (Suc i) xs)) @ Some (last xs) # rest)]))
          else Inr None)"
    using Suc.hyps(1) [of "Suc i"] Suc.hyps(2) Suc.prems lt by (simp add: add.commute)
  have d: "drop i xs = xs ! i # drop (Suc i) xs" using lt by (simp add: Cons_nth_drop_Suc)
  have t: "take (Suc i) xs = take i xs @ [xs ! i]" using lt by (simp add: take_Suc_conv_app_nth)
  show ?case
    using u by (subst remove_loop.simps)
      (auto simp: holds_load [OF Suc.prems(1) lt] shift_loop_holds [OF Suc.prems(1) lt] IH d t)
qed

lemma remove_absent:
  "holds s h xs rest \<Longrightarrow> x \<notin> set xs \<Longrightarrow> remove s x h = Inr (False, s, h)"
  by (simp add: remove_def contains_spec)

lemma remove_present:
  assumes "holds s h xs rest" "x \<in> set xs"
  shows "remove s x h =
         Inr (True, s\<lparr>used := used s - 1\<rparr>,
              h[data s := Some (map Some (remove1 x xs) @ Some (last xs) # rest)])"
  using assms(2) remove_loop_spec [OF assms(1), of 0 x]
  by (simp add: remove_def contains_spec [OF assms(1)])

lemma holds_after_remove:
  assumes "holds s h xs rest" "x \<in> set xs"
  shows "holds (s\<lparr>used := used s - 1\<rparr>)
           (h[data s := Some (map Some (remove1 x xs) @ Some (last xs) # rest)])
           (remove1 x xs) (Some (last xs) # rest)"
proof -
  have a: "length (remove1 x xs) = length xs - 1"
    using assms(2) by (simp add: length_remove1)
  have b: "1 \<le> length xs"
    using assms(2) by (cases xs) simp_all
  have "int (length (remove1 x xs)) = int (length xs) - 1"
    using a b by arith
  then show ?thesis using assms(1) by (simp add: holds_def)
qed

lemma DumpData_loop_spec:
  assumes "holds s h xs rest" "i \<le> length xs"
  shows "DumpData_loop s h (int i) out =
         Inr (out @ concat (map (\<lambda>v. [Text ''  '', Num v]) (drop i xs)))"
  using assms
proof (induction "length xs - i" arbitrary: i out)
  case 0
  then show ?case by (subst DumpData_loop.simps) (simp add: holds_def)
next
  case (Suc d)
  then have lt: "i < length xs" by simp
  have u: "int i < used s" using Suc.prems lt by (simp add: holds_def)
  have IH: "\<And>out. DumpData_loop s h (int i + 1) out =
         Inr (out @ concat (map (\<lambda>v. [Text ''  '', Num v]) (drop (Suc i) xs)))"
    using Suc.hyps(1) [of "Suc i"] Suc.hyps(2) Suc.prems lt by (simp add: add.commute)
  have d: "drop i xs = xs ! i # drop (Suc i) xs" using lt by (simp add: Cons_nth_drop_Suc)
  show ?case
    using u by (subst DumpData_loop.simps)
      (simp add: holds_load [OF Suc.prems(1) lt] IH d)
qed

lemma DumpData_spec:
  assumes "holds s h xs rest"
  shows "DumpData s h out = Inr (out @ dump_items xs)"
proof (cases xs)
  case Nil
  then show ?thesis using assms by (simp add: DumpData_def holds_def)
next
  case (Cons y ys)
  have u: "used s > 0" using assms Cons by (simp add: holds_def)
  have l: "load (data s) 0 h = Inr y"
    using holds_load [OF assms, of 0] Cons by simp
  have "DumpData_loop s h (int 1) (out @ [Num y]) =
        Inr ((out @ [Num y]) @ concat (map (\<lambda>v. [Text ''  '', Num v]) (drop 1 xs)))"
    using Cons by (intro DumpData_loop_spec [OF assms]) simp
  then show ?thesis using u l Cons by (simp add: DumpData_def)
qed

lemma inv_holdsD:
  assumes "IntSet_inv s h"
  obtains rest where "holds s h (elems s h) rest" "distinct (elems s h)" "1 \<le> capacity s"
proof -
  from assms obtain xs rest where h: "holds s h xs rest" "distinct xs" "1 \<le> capacity s"
    unfolding IntSet_inv_holds by blast
  from h(1) have "elems s h = xs" by (rule holds_elems)
  with h that show thesis by blast
qed

lemma grow_request_exceeds: "1 \<le> c \<Longrightarrow> c < (3 * c) div 2 + (1::int)"
  by linarith

lemma add_new_cases:
  assumes "holds s h xs rest" "x \<notin> set xs" "1 \<le> capacity s"
  shows "(add DC s x h = Inl IntOverflow \<and> used s = capacity s \<and> MAX_GROWABLE < capacity s) \<or>
         (\<exists>s' h' rest'. add DC s x h = Inr (True, s', h') \<and> holds s' h' (xs @ [x]) rest' \<and>
            frame (data s) h h' \<and> (data s' = data s \<or> data s' = length h) \<and>
            (if used s < capacity s then capacity s' = capacity s
             else capacity s' = (3 * capacity s) div 2 + 1))"
proof (cases rest)
  case (Cons c rest')
  with assms have h: "holds s h xs (c # rest')" by simp
  have u: "used s < capacity s" using h by (simp add: holds_def)
  have p: "data s < length h" using h by (simp add: holds_def)
  let ?s = "s\<lparr>used := used s + 1\<rparr>"
  let ?h = "h[data s := Some (map Some (xs @ [x]) @ rest')]"
  have "add DC s x h = Inr (True, ?s, ?h)" using h assms(2) by (rule add_room)
  moreover have "holds ?s ?h (xs @ [x]) rest'" using h by (simp add: holds_def)
  moreover have "frame (data s) h ?h" by (simp add: frame_def)
  ultimately show ?thesis using u by auto
next
  case Nil
  with assms have h: "holds s h xs []" by simp
  have u: "used s = capacity s" "used s = int (length xs)" "data s < length h"
    using h by (simp_all add: holds_def)
  show ?thesis
  proof (cases "capacity s \<le> MAX_GROWABLE")
    case False
    then have "grow_request (capacity s) = Inl IntOverflow"
      by (intro grow_request_overflow) simp
    with h assms(2) have "add DC s x h = Inl IntOverflow" by (rule add_full_overflow)
    with False u show ?thesis by simp
  next
    case True
    let ?n = "(3 * capacity s) div 2 + 1"
    have g: "grow_request (capacity s) = Inr ?n" using assms(3) True by (rule grow_request_ok)
    have lt: "capacity s < ?n" using assms(3) by (rule grow_request_exceeds)
    let ?s = "\<lparr>data = length h, capacity = ?n, used = used s + 1\<rparr>"
    let ?r = "replicate (nat ?n - length xs - 1) (None :: cell)"
    let ?h = "(h @ [Some (map Some (xs @ [x]) @ ?r)])[data s := None]"
    have a: "add DC s x h = Inr (True, ?s, ?h)" using h assms(2) g lt by (rule add_full)
    have len: "int (length xs + 1 + length ?r) = ?n" using lt u by simp
    have "holds ?s ?h (xs @ [x]) ?r"
      unfolding holds_def using u len by (simp add: nth_append)
    moreover have "frame (data s) h ?h"
      by (simp add: frame_def nth_append)
    ultimately show ?thesis using a u by auto
  qed
qed

lemma floor_three_halves: "\<lfloor>1.5 * real_of_int c\<rfloor> = (3 * c) div 2"
proof -
  have "1.5 * real_of_int c = real_of_int (3 * c) / real_of_int 2" by simp
  then show ?thesis by (simp only: floor_divide_of_int_eq)
qed

lemma holds_inv: "holds s h xs rest \<Longrightarrow> distinct xs \<Longrightarrow> 1 \<le> capacity s \<Longrightarrow> IntSet_inv s h"
  unfolding IntSet_inv_holds by blast

lemma distinct_words_upt:
  assumes "n \<le> 2 ^ 32"
  shows "distinct (map (word_of_nat :: nat \<Rightarrow> cint) [0..<n])"
proof -
  have "inj_on (word_of_nat :: nat \<Rightarrow> cint) (set [0..<n])"
  proof (rule inj_onI)
    fix a b assume ab: "a \<in> set [0..<n]" "b \<in> set [0..<n]"
      and eq: "(word_of_nat a :: cint) = word_of_nat b"
    from ab assms have "a < 2 ^ 32" "b < 2 ^ 32" by auto
    then have "take_bit 32 a = a" "take_bit 32 b = b" by (simp_all add: take_bit_nat_eq_self)
    with eq show "a = b" by (simp add: word_of_nat_eq_iff)
  qed
  then show ?thesis by (simp add: distinct_map)
qed

lemma word_not_in_upt:
  assumes "n \<le> k" "k < 2 ^ 32"
  shows "(word_of_nat k :: cint) \<notin> set (map word_of_nat [0..<n])"
proof
  assume "(word_of_nat k :: cint) \<in> set (map word_of_nat [0..<n])"
  then obtain a where a: "a < n" "(word_of_nat k :: cint) = word_of_nat a" by auto
  have "take_bit 32 a = a" "take_bit 32 k = k"
    using a(1) assms by (simp_all add: take_bit_nat_eq_self)
  with a(2) have "k = a" by (simp add: word_of_nat_eq_iff)
  with a(1) assms(1) show False by simp
qed

lemma full_set_holds:
  "holds (full_set n) (full_store n) (map word_of_nat [0..<n]) []"
  by (simp add: holds_def full_set_def full_store_def)

lemma full_set_inv:
  assumes "1 \<le> n" "n \<le> 2 ^ 32"
  shows "IntSet_inv (full_set n) (full_store n)"
proof -
  have "1 \<le> capacity (full_set n)" using assms(1) by (simp add: full_set_def)
  with full_set_holds distinct_words_upt [OF assms(2)] show ?thesis by (rule holds_inv)
qed

lemma full_set_add_overflow:
  assumes "nat MAX_GROWABLE < n" "n \<le> k" "k < 2 ^ 32"
  shows "add DC (full_set n) (word_of_nat k) (full_store n) = Inl IntOverflow"
proof -
  have "MAX_GROWABLE < capacity (full_set n)" using assms(1) by (simp add: full_set_def)
  then have "grow_request (capacity (full_set n)) = Inl IntOverflow"
    by (rule grow_request_overflow)
  with full_set_holds word_not_in_upt [OF assms(2,3)] show ?thesis
    by (rule add_full_overflow)
qed

lemma run_single_add:
  "run DC (Add 0 x # ops) \<lparr>objs = [s], mem = h\<rparr> =
     (case add DC s x h of Inl e \<Rightarrow> Inl e
      | Inr (r, s', h') \<Rightarrow> run DC ops \<lparr>objs = [s'], mem = h'\<rparr>)"
  by (simp split: sum.splits)

lemma run_single_remove:
  "run DC (Remove 0 x # ops) \<lparr>objs = [s], mem = h\<rparr> =
     (case remove s x h of Inl e \<Rightarrow> Inl e
      | Inr (r, s', h') \<Rightarrow> run DC ops \<lparr>objs = [s'], mem = h'\<rparr>)"
  by (simp split: sum.splits)

lemma add_new_small:
  assumes "holds s h xs rest" "x \<notin> set xs" "1 \<le> capacity s"
    and "used s < capacity s \<or> capacity s \<le> MAX_GROWABLE"
  shows "\<exists>s' h' rest'. add DC s x h = Inr (True, s', h') \<and> holds s' h' (xs @ [x]) rest'"
  using add_new_cases [OF assms(1-3), of DC] assms(4) by auto

lemma frame_take:
  assumes "frame p h h'" "L \<le> p" "L \<le> length h"
  shows "take L h' = take L h"
proof (rule nth_equalityI)
  show "length (take L h') = length (take L h)" using assms by (simp add: frame_def)
next
  fix q assume "q < length (take L h')"
  then have q: "q < L" by simp
  then have "h' ! q = h ! q" using assms by (simp add: frame_def)
  with q show "take L h' ! q = take L h ! q" by simp
qed

lemma holds_agree:
  assumes "holds t h ys r" "data t < L" "take L h' = take L h" "L \<le> length h'"
  shows "holds t h' ys r"
proof -
  have "h' ! data t = take L h' ! data t" using assms(2) by simp
  also have "\<dots> = take L h ! data t" by (simp only: assms(3))
  also have "\<dots> = h ! data t" using assms(2) by simp
  finally show ?thesis using assms(1,2,4) by (simp add: holds_def)
qed

lemma set_union_items: "set (union_items zs ys) = set zs \<union> set ys"
  by (induction zs ys rule: union_items.induct) auto

lemma distinct_union_items: "distinct zs \<Longrightarrow> distinct (union_items zs ys)"
  by (induction zs ys rule: union_items.induct) auto

lemma distinct_intersect_items: "distinct zs \<Longrightarrow> distinct (intersect_items ys zs xs)"
  by (induction ys zs xs rule: intersect_items.induct) auto

lemma distinct_subtract_items: "distinct zs \<Longrightarrow> distinct (subtract_items zs ys)"
  by (induction zs ys rule: subtract_items.induct) auto

lemma holds_capacity: "holds s h (xs @ [x]) r \<Longrightarrow> 1 \<le> capacity s"
  by (simp add: holds_def)

lemma unionWith_loop_spec:
  assumes "holds B h ys rb" "data B < L" "L \<le> length h"
    and "holds U h zs ru" "L \<le> data U" "distinct zs" "1 \<le> capacity U" "i \<le> length ys"
  shows "case unionWith_loop DC U B (int (length ys)) (int i) h of
           Inl e \<Rightarrow> e = IntOverflow \<and> MAX_GROWABLE + 1 < int (length zs + (length ys - i))
         | Inr (U', h') \<Rightarrow>
             (\<exists>r'. holds U' h' (union_items zs (drop i ys)) r') \<and> 1 \<le> capacity U' \<and>
             L \<le> data U' \<and> take L h' = take L h"
  using assms
proof (induction "length ys - i" arbitrary: i U h zs ru)
  case 0
  then have "unionWith_loop DC U B (int (length ys)) (int i) h = Inr (U, h)"
    by (subst unionWith_loop.simps) simp
  with 0 show ?case by auto
next
  case (Suc d)
  then have lt: "i < length ys" by simp
  let ?y = "ys ! i"
  have ld: "load (data B) (int i) h = Inr ?y" using Suc.prems(1) lt by (rule holds_load)
  have ct: "contains U ?y h = Inr (?y \<in> set zs)" using Suc.prems(4) by (rule contains_spec)
  have d: "drop i ys = ?y # drop (Suc i) ys" using lt by (simp add: Cons_nth_drop_Suc)
  have i1: "int i + 1 = int (Suc i)" by simp
  show ?case
  proof (cases "?y \<in> set zs")
    case True
    have step: "unionWith_loop DC U B (int (length ys)) (int i) h =
                unionWith_loop DC U B (int (length ys)) (int (Suc i)) h"
      using lt True by (subst unionWith_loop.simps) (simp add: ld ct i1 [symmetric] add.commute)
    have IH: "case unionWith_loop DC U B (int (length ys)) (int (Suc i)) h of
           Inl e \<Rightarrow> e = IntOverflow \<and> MAX_GROWABLE + 1 < int (length zs + (length ys - Suc i))
         | Inr (U', h') \<Rightarrow>
             (\<exists>r'. holds U' h' (union_items zs (drop (Suc i) ys)) r') \<and> 1 \<le> capacity U' \<and>
             L \<le> data U' \<and> take L h' = take L h"
      using Suc.hyps(2) Suc.prems lt by (intro Suc.hyps(1)) auto
    show ?thesis
      unfolding step d using IH True by (auto split: sum.splits)
  next
    case False
    from add_new_cases [OF Suc.prems(4) False Suc.prems(7), of DC]
    consider (ovf) "add DC U ?y h = Inl IntOverflow" "used U = capacity U"
        "MAX_GROWABLE < capacity U"
      | (ok) U' h' r' where "add DC U ?y h = Inr (True, U', h')" "holds U' h' (zs @ [?y]) r'"
        "frame (data U) h h'" "data U' = data U \<or> data U' = length h"
      by blast
    then show ?thesis
    proof cases
      case ovf
      have step: "unionWith_loop DC U B (int (length ys)) (int i) h = Inl IntOverflow"
        using lt False by (subst unionWith_loop.simps) (simp add: ld ct ovf(1))
      have "capacity U = int (length zs)" using Suc.prems(4) ovf(2) by (simp add: holds_def)
      with ovf(3) lt have "MAX_GROWABLE + 1 < int (length zs + (length ys - i))" by simp
      with step show ?thesis by simp
    next
      case ok
      have step: "unionWith_loop DC U B (int (length ys)) (int i) h =
                  unionWith_loop DC U' B (int (length ys)) (int (Suc i)) h'"
        using lt False
        by (subst unionWith_loop.simps) (simp add: ld ct ok(1) i1 [symmetric] add.commute)
      have tk: "take L h' = take L h" using ok(3) Suc.prems(5,3) by (rule frame_take)
      have len: "L \<le> length h'" using ok(3) Suc.prems(3) by (simp add: frame_def)
      have B': "holds B h' ys rb" using Suc.prems(1,2) tk len by (rule holds_agree)
      have L': "L \<le> data U'" using ok(4) Suc.prems(5,3) by auto
      have dz: "distinct (zs @ [?y])" using Suc.prems(6) False by simp
      have cap: "1 \<le> capacity U'" using ok(2) by (rule holds_capacity)
      have IH: "case unionWith_loop DC U' B (int (length ys)) (int (Suc i)) h' of
           Inl e \<Rightarrow> e = IntOverflow \<and>
                    MAX_GROWABLE + 1 < int (length (zs @ [?y]) + (length ys - Suc i))
         | Inr (U'', h'') \<Rightarrow>
             (\<exists>r'. holds U'' h'' (union_items (zs @ [?y]) (drop (Suc i) ys)) r') \<and>
             1 \<le> capacity U'' \<and> L \<le> data U'' \<and> take L h'' = take L h'"
        using Suc.hyps(2) lt B' Suc.prems(2) len ok(2) L' dz cap
        by (intro Suc.hyps(1)) auto
      have n: "length (zs @ [?y]) + (length ys - Suc i) = length zs + (length ys - i)"
        using lt by simp
      show ?thesis
        unfolding step d using IH False tk unfolding n by (auto split: sum.splits)
    qed
  qed
qed

lemma remove_cases:
  assumes "holds s h zs r"
  shows "\<exists>b s' h' r'. remove s x h = Inr (b, s', h') \<and> holds s' h' (remove1 x zs) r' \<and>
           data s' = data s \<and> capacity s' = capacity s \<and> length h' = length h \<and>
           (\<forall>L\<le>data s. take L h' = take L h)"
proof (cases "x \<in> set zs")
  case True
  let ?s = "s\<lparr>used := used s - 1\<rparr>"
  let ?h = "h[data s := Some (map Some (remove1 x zs) @ Some (last zs) # r)]"
  have "remove s x h = Inr (True, ?s, ?h)" using assms True by (rule remove_present)
  moreover have "holds ?s ?h (remove1 x zs) (Some (last zs) # r)"
    using assms True by (rule holds_after_remove)
  ultimately show ?thesis by auto
next
  case False
  have "remove s x h = Inr (False, s, h)" using assms False by (rule remove_absent)
  moreover have "remove1 x zs = zs" using False by (simp add: remove1_idem)
  ultimately show ?thesis using assms by auto
qed

lemma intersect_loop_spec:
  assumes "holds A h xs ra" "data A < L" "holds B h ys rb" "data B < L" "L \<le> length h"
    and "holds I h zs ri" "L \<le> data I" "i \<le> length xs"
  shows "\<exists>I' h' r'. intersect_loop A I B (int i) h = Inr (I', h') \<and>
           holds I' h' (intersect_items ys zs (drop i xs)) r' \<and>
           data I' = data I \<and> capacity I' = capacity I \<and> length h' = length h \<and>
           take L h' = take L h"
  using assms
proof (induction "length xs - i" arbitrary: i I h zs ri)
  case 0
  then have "intersect_loop A I B (int i) h = Inr (I, h)"
    by (subst intersect_loop.simps) (simp add: size_IntSet_def holds_def)
  with 0 show ?case by auto
next
  case (Suc d)
  then have lt: "i < length xs" by simp
  let ?x = "xs ! i"
  have c: "int i < size_IntSet A" using Suc.prems(1) lt by (simp add: size_IntSet_def holds_def)
  have ld: "load (data A) (int i) h = Inr ?x" using Suc.prems(1) lt by (rule holds_load)
  have ct: "contains B ?x h = Inr (?x \<in> set ys)" using Suc.prems(3) by (rule contains_spec)
  have d: "drop i xs = ?x # drop (Suc i) xs" using lt by (simp add: Cons_nth_drop_Suc)
  have i1: "int i + 1 = int (Suc i)" by simp
  show ?case
  proof (cases "?x \<in> set ys")
    case True
    have step: "intersect_loop A I B (int i) h = intersect_loop A I B (int (Suc i)) h"
      using c True by (subst intersect_loop.simps) (simp add: ld ct i1 [symmetric] add.commute)
    have "\<exists>I' h' r'. intersect_loop A I B (int (Suc i)) h = Inr (I', h') \<and>
           holds I' h' (intersect_items ys zs (drop (Suc i) xs)) r' \<and>
           data I' = data I \<and> capacity I' = capacity I \<and> length h' = length h \<and>
           take L h' = take L h"
      using Suc.hyps(2) Suc.prems lt by (intro Suc.hyps(1)) auto
    then show ?thesis unfolding step d using True by simp
  next
    case False
    from remove_cases [OF Suc.prems(6), of ?x]
    obtain b I' h' r' where rm: "remove I ?x h = Inr (b, I', h')"
      "holds I' h' (remove1 ?x zs) r'" "data I' = data I" "length h' = length h"
      "capacity I' = capacity I"
      "\<forall>L\<le>data I. take L h' = take L h"
      by blast
    have step: "intersect_loop A I B (int i) h = intersect_loop A I' B (int (Suc i)) h'"
      using c False
      by (subst intersect_loop.simps) (simp add: ld ct rm(1) i1 [symmetric] add.commute)
    have tk: "take L h' = take L h" using rm(6) Suc.prems(7) by blast
    have len: "L \<le> length h'" using rm(4) Suc.prems(5) by simp
    have A': "holds A h' xs ra" using Suc.prems(1,2) tk len by (rule holds_agree)
    have B': "holds B h' ys rb" using Suc.prems(3,4) tk len by (rule holds_agree)
    have "\<exists>I'' h'' r''. intersect_loop A I' B (int (Suc i)) h' = Inr (I'', h'') \<and>
           holds I'' h'' (intersect_items ys (remove1 ?x zs) (drop (Suc i) xs)) r'' \<and>
           data I'' = data I' \<and> capacity I'' = capacity I' \<and> length h'' = length h' \<and>
           take L h'' = take L h'"
      using Suc.hyps(2) lt A' Suc.prems(2) B' Suc.prems(4) len rm(2) rm(3) Suc.prems(7)
      by (intro Suc.hyps(1)) auto
    then show ?thesis unfolding step d using False rm(3,4,5) tk by auto
  qed
qed

lemma subtract_loop_spec:
  assumes "holds B h ys rb" "data B < L" "L \<le> length h"
    and "holds S h zs rs" "L \<le> data S" "i \<le> length ys"
  shows "\<exists>S' h' r'. subtract_loop S B (int (length ys)) (int i) h = Inr (S', h') \<and>
           holds S' h' (subtract_items zs (drop i ys)) r' \<and>
           data S' = data S \<and> capacity S' = capacity S \<and> length h' = length h \<and>
           take L h' = take L h"
  using assms
proof (induction "length ys - i" arbitrary: i S h zs rs)
  case 0
  then have "subtract_loop S B (int (length ys)) (int i) h = Inr (S, h)"
    by (subst subtract_loop.simps) simp
  with 0 show ?case by auto
next
  case (Suc d)
  then have lt: "i < length ys" by simp
  let ?y = "ys ! i"
  have ld: "load (data B) (int i) h = Inr ?y" using Suc.prems(1) lt by (rule holds_load)
  have ct: "contains S ?y h = Inr (?y \<in> set zs)" using Suc.prems(4) by (rule contains_spec)
  have d: "drop i ys = ?y # drop (Suc i) ys" using lt by (simp add: Cons_nth_drop_Suc)
  have i1: "int i + 1 = int (Suc i)" by simp
  show ?case
  proof (cases "?y \<in> set zs")
    case False
    have step: "subtract_loop S B (int (length ys)) (int i) h =
                subtract_loop S B (int (length ys)) (int (Suc i)) h"
      using lt False by (subst subtract_loop.simps) (simp add: ld ct i1 [symmetric] add.commute)
    have "\<exists>S' h' r'. subtract_loop S B (int (length ys)) (int (Suc i)) h = Inr (S', h') \<and>
           holds S' h' (subtract_items zs (drop (Suc i) ys)) r' \<and>
           data S' = data S \<and> capacity S' = capacity S \<and> length h' = length h \<and>
           take L h' = take L h"
      using Suc.hyps(2) Suc.prems lt by (intro Suc.hyps(1)) auto
    then show ?thesis unfolding step d using False by (simp add: remove1_idem)
  next
    case True
    from remove_cases [OF Suc.prems(4), of ?y]
    obtain b S' h' r' where rm: "remove S ?y h = Inr (b, S', h')"
      "holds S' h' (remove1 ?y zs) r'" "data S' = data S" "length h' = length h"
      "capacity S' = capacity S"
      "\<forall>L\<le>data S. take L h' = take L h"
      by blast
    have step: "subtract_loop S B (int (length ys)) (int i) h =
                subtract_loop S' B (int (length ys)) (int (Suc i)) h'"
      using lt True
      by (subst subtract_loop.simps) (simp add: ld ct rm(1) i1 [symmetric] add.commute)
    have tk: "take L h' = take L h" using rm(6) Suc.prems(5) by blast
    have len: "L \<le> length h'" using rm(4) Suc.prems(3) by simp
    have B': "holds B h' ys rb" using Suc.prems(1,2) tk len by (rule holds_agree)
    have "\<exists>S'' h'' r''. subtract_loop S' B (int (length ys)) (int (Suc i)) h' = Inr (S'', h'') \<and>
           holds S'' h'' (subtract_items (remove1 ?y zs) (drop (Suc i) ys)) r'' \<and>
           data S'' = data S' \<and> capacity S'' = capacity S' \<and> length h'' = length h' \<and>
           take L h'' = take L h'"
      using Suc.hyps(2) lt B' Suc.prems(2) len rm(2) rm(3) Suc.prems(5)
      by (intro Suc.hyps(1)) auto
    then show ?thesis unfolding step d using rm(3,4,5) tk by auto
  qed
qed

lemma copy_holds:
  assumes "holds A h xs ra"
  shows "holds \<lparr>data = length h, capacity = capacity A, used = used A\<rparr>
           (h @ [Some (map Some xs @ replicate (length ra) None)]) xs (replicate (length ra) None)"
  using assms by (simp add: holds_def)

lemma holds_append: "holds B h ys rb \<Longrightarrow> holds B (h @ g) ys rb"
  by (simp add: holds_def nth_append)

lemma unionWith_spec:
  assumes "holds A h xs ra" "distinct xs" "1 \<le> capacity A" "holds B h ys rb"
  shows "case unionWith DC A B h of
           Inl e \<Rightarrow> e = IntOverflow \<and> MAX_GROWABLE + 1 < int (length xs + length ys)
         | Inr (R, h') \<Rightarrow>
             (\<exists>r'. holds R h' (union_items xs ys) r') \<and> 1 \<le> capacity R \<and>
             length h \<le> data R \<and> take (length h) h' = h"
proof -
  let ?U = "\<lparr>data = length h, capacity = capacity A, used = used A\<rparr>"
  let ?h1 = "h @ [Some (map Some xs @ replicate (length ra) None)]"
  have cp: "IntSet_copy A h = Inr (?U, ?h1)" using assms(1) by (rule IntSet_copy_spec)
  have U: "holds ?U ?h1 xs (replicate (length ra) None)" using assms(1) by (rule copy_holds)
  have B: "holds B ?h1 ys rb" using assms(4) by (rule holds_append)
  have dB: "data B < length h" using assms(4) by (simp add: holds_def)
  have sz: "size_IntSet B = int (length ys)" using assms(4) by (simp add: size_IntSet_def holds_def)
  have "case unionWith_loop DC ?U B (int (length ys)) (int 0) ?h1 of
           Inl e \<Rightarrow> e = IntOverflow \<and> MAX_GROWABLE + 1 < int (length xs + (length ys - 0))
         | Inr (U', h') \<Rightarrow>
             (\<exists>r'. holds U' h' (union_items xs (drop 0 ys)) r') \<and> 1 \<le> capacity U' \<and>
             length h \<le> data U' \<and> take (length h) h' = take (length h) ?h1"
    using B dB _ U _ assms(2) _ by (rule unionWith_loop_spec) (simp_all add: assms(3))
  then show ?thesis by (auto simp add: unionWith_def cp sz split: sum.splits)
qed

lemma intersect_spec:
  assumes "holds A h xs ra" "holds B h ys rb"
  shows "\<exists>R h' r'. intersect A B h = Inr (R, h') \<and> holds R h' (intersect_items ys xs xs) r' \<and>
           capacity R = capacity A \<and> data R = length h \<and> take (length h) h' = h"
proof -
  let ?U = "\<lparr>data = length h, capacity = capacity A, used = used A\<rparr>"
  let ?h1 = "h @ [Some (map Some xs @ replicate (length ra) None)]"
  have cp: "IntSet_copy A h = Inr (?U, ?h1)" using assms(1) by (rule IntSet_copy_spec)
  have U: "holds ?U ?h1 xs (replicate (length ra) None)" using assms(1) by (rule copy_holds)
  have A: "holds A ?h1 xs ra" using assms(1) by (rule holds_append)
  have B: "holds B ?h1 ys rb" using assms(2) by (rule holds_append)
  have d: "data A < length h" "data B < length h" using assms by (simp_all add: holds_def)
  have "\<exists>I' h' r'. intersect_loop A ?U B (int 0) ?h1 = Inr (I', h') \<and>
           holds I' h' (intersect_items ys xs (drop 0 xs)) r' \<and>
           data I' = data ?U \<and> capacity I' = capacity ?U \<and> length h' = length ?h1 \<and>
           take (length h) h' = take (length h) ?h1"
    using A d(1) B d(2) _ U by (rule intersect_loop_spec) simp_all
  then show ?thesis by (auto simp add: intersect_def cp)
qed

lemma subtract_spec:
  assumes "holds A h xs ra" "holds B h ys rb"
  shows "\<exists>R h' r'. subtract A B h = Inr (R, h') \<and> holds R h' (subtract_items xs ys) r' \<and>
           capacity R = capacity A \<and> data R = length h \<and> take (length h) h' = h"
proof -
  let ?U = "\<lparr>data = length h, capacity = capacity A, used = used A\<rparr>"
  let ?h1 = "h @ [Some (map Some xs @ replicate (length ra) None)]"
  have cp: "IntSet_copy A h = Inr (?U, ?h1)" using assms(1) by (rule IntSet_copy_spec)
  have U: "holds ?U ?h1 xs (replicate (length ra) None)" using assms(1) by (rule copy_holds)
  have B: "holds B ?h1 ys rb" using assms(2) by (rule holds_append)
  have d: "data B < length h" using assms by (simp_all add: holds_def)
  have sz: "size_IntSet B = int (length ys)" using assms(2) by (simp add: size_IntSet_def holds_def)
  have "\<exists>S' h' r'. subtract_loop ?U B (int (length ys)) (int 0) ?h1 = Inr (S', h') \<and>
           holds S' h' (subtract_items xs (drop 0 ys)) r' \<and>
           data S' = data ?U \<and> capacity S' = capacity ?U \<and> length h' = length ?h1 \<and>
           take (length h) h' = take (length h) ?h1"
    using B d _ U by (rule subtract_loop_spec) simp_all
  then show ?thesis by (auto simp add: subtract_def cp sz)
qed

lemma result_independentI:
  assumes "IntSet_inv A h" "IntSet_inv B h"
    and "holds R h' zs r" "distinct zs" "1 \<le> capacity R"
    and "length h \<le> data R" "take (length h) h' = h"
  shows "result_independent A B h R h'"
proof -
  from assms(1) obtain ra where A: "holds A h (elems A h) ra" "distinct (elems A h)"
    "1 \<le> capacity A" by (rule inv_holdsD)
  from assms(2) obtain rb where B: "holds B h (elems B h) rb" "distinct (elems B h)"
    "1 \<le> capacity B" by (rule inv_holdsD)
  have len: "length h \<le> length h'" using assms(3,6) by (simp add: holds_def)
  have tk: "take (length h) h' = take (length h) h" using assms(7) by simp
  have dA: "data A < length h" using A(1) by (simp add: holds_def)
  have dB: "data B < length h" using B(1) by (simp add: holds_def)
  have A': "holds A h' (elems A h) ra" using A(1) dA tk len by (rule holds_agree)
  have B': "holds B h' (elems B h) rb" using B(1) dB tk len by (rule holds_agree)
  have "IntSet_inv R h'" using assms(3,4,5) by (rule holds_inv)
  moreover have "IntSet_inv A h'" using A' A(2,3) by (rule holds_inv)
  moreover have "IntSet_inv B h'" using B' B(2,3) by (rule holds_inv)
  moreover have "elems A h' = elems A h" using A' by (rule holds_elems)
  moreover have "elems B h' = elems B h" using B' by (rule holds_elems)
  ultimately show ?thesis using assms(6,7) by (simp add: result_independent_def)
qed



























lemma unionWith_overflow:
  assumes "holds A h xs []" "MAX_GROWABLE < capacity A" "holds B h (y # ys) rb" "y \<notin> set xs"
  shows "unionWith DC A B h = Inl IntOverflow"
proof -
  let ?U = "\<lparr>data = length h, capacity = capacity A, used = used A\<rparr>"
  let ?h1 = "h @ [Some (map Some xs @ replicate (length ([] :: cell list)) None)]"
  have cp: "IntSet_copy A h = Inr (?U, ?h1)" using assms(1) by (rule IntSet_copy_spec)
  have U: "holds ?U ?h1 xs []" using copy_holds [OF assms(1)] by simp
  have B: "holds B ?h1 (y # ys) rb" using assms(3) by (rule holds_append)
  have sz: "0 < size_IntSet B" using assms(3) by (simp add: size_IntSet_def holds_def)
  have ld: "load (data B) 0 ?h1 = Inr y" using holds_load [OF B, of 0] by simp
  have ct: "contains ?U y ?h1 = Inr False" using contains_spec [OF U, of y] assms(4) by simp
  have "grow_request (capacity ?U) = Inl IntOverflow"
    using assms(2) by (intro grow_request_overflow) simp
  with U assms(4) have ad: "add DC ?U y ?h1 = Inl IntOverflow" by (rule add_full_overflow)
  have "unionWith_loop DC ?U B (size_IntSet B) 0 ?h1 = Inl IntOverflow"
    using sz ld ct ad by (subst unionWith_loop.simps) simp
  then show ?thesis by (simp add: unionWith_def cp)
qed

lemma pair_store_sets:
  assumes "1 \<le> n" "n < 2 ^ 32"
  shows "holds (full_set n) (pair_store n) (map word_of_nat [0..<n]) []"
    and "holds minus_one_set (pair_store n) [- 1] []"
    and "IntSet_inv (full_set n) (pair_store n)"
    and "IntSet_inv minus_one_set (pair_store n)"
    and "(- 1 :: cint) \<notin> set (map word_of_nat [0..<n])"
proof -
  show a: "holds (full_set n) (pair_store n) (map word_of_nat [0..<n]) []"
    unfolding pair_store_def using full_set_holds by (rule holds_append)
  show b: "holds minus_one_set (pair_store n) [- 1] []"
    by (simp add: holds_def minus_one_set_def pair_store_def full_store_def)
  have d: "distinct (map (word_of_nat :: nat \<Rightarrow> cint) [0..<n])"
    using assms(2) by (intro distinct_words_upt) simp
  have c: "1 \<le> capacity (full_set n)" using assms(1) by (simp add: full_set_def)
  show "IntSet_inv (full_set n) (pair_store n)" using a d c by (rule holds_inv)
  show "IntSet_inv minus_one_set (pair_store n)"
    using b by (rule holds_inv) (simp_all add: minus_one_set_def)
  have m: "(- 1 :: cint) = word_of_nat 4294967295" by simp
  show "(- 1 :: cint) \<notin> set (map word_of_nat [0..<n])"
    unfolding m using assms(2) by (intro word_not_in_upt) simp_all
qed

lemma pair_store_union_overflow:
  assumes "nat MAX_GROWABLE < n" "n < 2 ^ 32"
  shows "unionWith DC (full_set n) minus_one_set (pair_store n) = Inl IntOverflow"
proof -
  have n1: "1 \<le> n" using assms(1) by simp
  have c: "MAX_GROWABLE < capacity (full_set n)" using assms(1) by (simp add: full_set_def)
  show ?thesis
    using pair_store_sets(1) [OF n1 assms(2)] c pair_store_sets(2) [OF n1 assms(2)]
      pair_store_sets(5) [OF n1 assms(2)]
    by (rule unionWith_overflow)
qed

lemma unionWith_returns:
  assumes "holds A h xs ra" "distinct xs" "1 \<le> capacity A" "holds B h ys rb"
    and "int (length xs + length ys) \<le> MAX_GROWABLE + 1"
  shows "\<exists>R h' r'. unionWith DC A B h = Inr (R, h') \<and> holds R h' (union_items xs ys) r' \<and>
           1 \<le> capacity R \<and> length h \<le> data R \<and> take (length h) h' = h"
proof (cases "unionWith DC A B h")
  case (Inl e)
  then show ?thesis using unionWith_spec [OF assms(1-4), of DC] assms(5) by simp
next
  case (Inr p)
  obtain R h' where p: "p = (R, h')" by (cases p)
  from unionWith_spec [OF assms(1-4), of DC] Inr p show ?thesis by auto
qed


section \<open>The claims\<close>

text \<open>
  Claim C1 (the effective capacity of \<^verbatim>\<open>resize\<close>). The claim, and the comment that documents
  \<^verbatim>\<open>resize\<close> in the source, say that a request too low for the current contents,
  non-positive requests included, gives a capacity of exactly \<open>used\<close> when the set is not
  empty. The code tests \<^verbatim>\<open>new_capacity <= 0\<close> first and then takes \<^verbatim>\<open>DEFAULT_CAPACITY\<close>
  whatever \<open>used\<close> is. On the set 5, 3, 9 in an array of 4 cells, \<^verbatim>\<open>resize(0)\<close> gives the
  capacity 10 when \<^verbatim>\<open>DEFAULT_CAPACITY\<close> is 10, not 3; when \<^verbatim>\<open>DEFAULT_CAPACITY\<close> is 1 the new
  array has one cell and the copy of the three elements writes past its end.
\<close>

theorem C1_resize_nonpositive_request:
  "IntSet_inv \<lparr>data = 0, capacity = 4, used = 3\<rparr> [Some [Some 5, Some 3, Some 9, None]] \<and>
   resize 10 \<lparr>data = 0, capacity = 4, used = 3\<rparr> 0 [Some [Some 5, Some 3, Some 9, None]] =
     Inr (\<lparr>data = 1, capacity = 10, used = 3\<rparr>,
          [None, Some [Some 5, Some 3, Some 9, None, None, None, None, None, None, None]]) \<and>
   resize 1 \<lparr>data = 0, capacity = 4, used = 3\<rparr> 0 [Some [Some 5, Some 3, Some 9, None]] =
     Inl OutOfBounds"
  by code_simp




text \<open>
  Claim C3 (equality is mutual inclusion). For two sets that satisfy the class invariant,
  both subset tests return, \<^verbatim>\<open>operator==\<close> returns the conjunction of their results, and
  that is true exactly when the two sets have the same set of elements, whatever the order
  of the elements in the arrays and whatever the capacities.
\<close>

theorem C3_equality_is_mutual_subset:
  assumes "IntSet_inv A h" "IntSet_inv B h"
  shows "\<exists>a b. isSubsetOf A B h = Inr a \<and> isSubsetOf B A h = Inr b \<and>
           equals A B h = Inr (a \<and> b) \<and>
           ((a \<and> b) \<longleftrightarrow> set (elems A h) = set (elems B h))"
proof -
  from assms(1) obtain ra where A: "holds A h (elems A h) ra" "distinct (elems A h)"
    by (rule inv_holdsD)
  from assms(2) obtain rb where B: "holds B h (elems B h) rb" "distinct (elems B h)"
    by (rule inv_holdsD)
  have "isSubsetOf A B h = Inr (set (elems A h) \<subseteq> set (elems B h))"
    using A(1) B(1) by (rule isSubsetOf_spec)
  moreover have "isSubsetOf B A h = Inr (set (elems B h) \<subseteq> set (elems A h))"
    using B(1) A(1) by (rule isSubsetOf_spec)
  moreover have "equals A B h = Inr (set (elems A h) = set (elems B h))"
    using A(1) B(1) A(2) B(2) by (rule equals_spec)
  ultimately show ?thesis by auto
qed

text \<open>The sets 1, 2 (capacity 3) and 2, 1 (capacity 2) are equal.\<close>

theorem C3_equality_is_mutual_subset_witness:
  "IntSet_inv \<lparr>data = 0, capacity = 3, used = 2\<rparr> [Some [Some 1, Some 2, None], Some [Some 2, Some 1]] \<and>
   IntSet_inv \<lparr>data = 1, capacity = 2, used = 2\<rparr> [Some [Some 1, Some 2, None], Some [Some 2, Some 1]] \<and>
   equals \<lparr>data = 0, capacity = 3, used = 2\<rparr> \<lparr>data = 1, capacity = 2, used = 2\<rparr>
     [Some [Some 1, Some 2, None], Some [Some 2, Some 1]] = Inr True"
proof -
  let ?h = "[Some [Some 1, Some 2, None], Some [Some 2, Some 1]] :: heap"
  let ?A = "\<lparr>data = 0, capacity = 3, used = 2\<rparr>"
  let ?B = "\<lparr>data = 1, capacity = 2, used = 2\<rparr>"
  have a: "IntSet_inv ?A ?h" by code_simp
  have b: "IntSet_inv ?B ?h" by code_simp
  have s: "isSubsetOf ?A ?B ?h = Inr True" "isSubsetOf ?B ?A ?h = Inr True" by code_simp+
  from C3_equality_is_mutual_subset [OF a b] s have "equals ?A ?B ?h = Inr True" by auto
  with a b show ?thesis by simp
qed

text \<open>
  Claim C4 (a value that is removed and added again moves to the end). On a set \<open>s\<close> that
  satisfies the class invariant and is empty, and for distinct values \<open>a\<close> and \<open>b\<close>, the
  calls add(a), add(b), remove(a), add(a) all return and \<^verbatim>\<open>DumpData\<close> then writes \<open>b\<close>, the
  separator, \<open>a\<close>. On any set \<open>t\<close> that satisfies the invariant and holds \<open>x\<close>, remove(x)
  followed by add(x) leaves the other elements in the order they had, followed by \<open>x\<close>.
\<close>

theorem C4_readd_moves_to_end:
  assumes "IntSet_inv s h" "used s = 0" "a \<noteq> b"
    and "IntSet_inv t g" "x \<in> set (elems t g)"
  shows "(\<exists>w. run DEFAULT_CAPACITY [Add 0 a, Add 0 b, Remove 0 a, Add 0 a]
                \<lparr>objs = [s], mem = h\<rparr> = Inr w \<and>
              DumpData (objs w ! 0) (mem w) [] = Inr [Num b, Text ''  '', Num a]) \<and>
         (\<exists>w. run DEFAULT_CAPACITY [Remove 0 x, Add 0 x] \<lparr>objs = [t], mem = g\<rparr> = Inr w \<and>
              elems (objs w ! 0) (mem w) = filter (\<lambda>y. y \<noteq> x) (elems t g) @ [x])"
proof
  from assms(1) obtain rest where hs: "holds s h (elems s h) rest" "1 \<le> capacity s"
    by (rule inv_holdsD)
  have e: "elems s h = []" using hs(1) assms(2) by (simp add: holds_def)
  have h0: "holds s h [] rest" using hs(1) e by simp
  have u0: "used s < capacity s" using assms(2) hs(2) by simp
  obtain s1 h1 r1 where 1: "add DEFAULT_CAPACITY s a h = Inr (True, s1, h1)"
    "holds s1 h1 [a] r1"
    using add_new_small [OF h0 _ hs(2) disjI1 [OF u0], of a DEFAULT_CAPACITY] by auto
  have c1: "1 \<le> capacity s1" "capacity s1 = 1 \<or> used s1 < capacity s1"
    using 1(2) by (auto simp: holds_def)
  have small1: "used s1 < capacity s1 \<or> capacity s1 \<le> MAX_GROWABLE"
    using c1(2) by (auto simp: MAX_GROWABLE_def)
  have nb: "b \<notin> set [a]" using assms(3) by simp
  obtain s2 h2 r2 where 2: "add DEFAULT_CAPACITY s1 b h1 = Inr (True, s2, h2)"
    "holds s2 h2 [a, b] r2"
    using add_new_small [OF 1(2) nb c1(1) small1, of DEFAULT_CAPACITY] by auto
  let ?s3 = "s2\<lparr>used := used s2 - 1\<rparr>"
  let ?h3 = "h2[data s2 := Some (map Some (remove1 a [a, b]) @ Some (last [a, b]) # r2)]"
  have 3: "remove s2 a h2 = Inr (True, ?s3, ?h3)"
    using remove_present [OF 2(2), of a] by simp
  have h3: "holds ?s3 ?h3 [b] (Some b # r2)"
    using holds_after_remove [OF 2(2), of a] by simp
  have c3: "1 \<le> capacity ?s3" "used ?s3 < capacity ?s3"
    using h3 by (simp_all add: holds_def)
  have na: "a \<notin> set [b]" using assms(3) by simp
  obtain s4 h4 r4 where 4: "add DEFAULT_CAPACITY ?s3 a ?h3 = Inr (True, s4, h4)"
    "holds s4 h4 [b, a] r4"
    using add_new_small [OF h3 na c3(1) disjI1 [OF c3(2)], of DEFAULT_CAPACITY] by auto
  have d: "DumpData s4 h4 [] = Inr ([] @ dump_items [b, a])"
    using 4(2) by (rule DumpData_spec)
  have "run DEFAULT_CAPACITY [Add 0 a, Add 0 b, Remove 0 a, Add 0 a] \<lparr>objs = [s], mem = h\<rparr> =
        Inr \<lparr>objs = [s4], mem = h4\<rparr>"
    by (simp only: run_single_add run_single_remove 1(1) 2(1) 3 4(1) sum.case prod.case run.simps(1))
  with d show "\<exists>w. run DEFAULT_CAPACITY [Add 0 a, Add 0 b, Remove 0 a, Add 0 a]
                \<lparr>objs = [s], mem = h\<rparr> = Inr w \<and>
              DumpData (objs w ! 0) (mem w) [] = Inr [Num b, Text ''  '', Num a]"
    by simp
next
  from assms(4) obtain rest where ht: "holds t g (elems t g) rest" "distinct (elems t g)"
    by (rule inv_holdsD)
  let ?xs = "elems t g"
  let ?t1 = "t\<lparr>used := used t - 1\<rparr>"
  let ?g1 = "g[data t := Some (map Some (remove1 x ?xs) @ Some (last ?xs) # rest)]"
  have 1: "remove t x g = Inr (True, ?t1, ?g1)" using ht(1) assms(5) by (rule remove_present)
  have h1: "holds ?t1 ?g1 (remove1 x ?xs) (Some (last ?xs) # rest)"
    using ht(1) assms(5) by (rule holds_after_remove)
  have c1: "1 \<le> capacity ?t1" "used ?t1 < capacity ?t1"
    using h1 by (simp_all add: holds_def)
  have nx: "x \<notin> set (remove1 x ?xs)" using ht(2) by simp
  obtain t2 g2 r2 where 2: "add DEFAULT_CAPACITY ?t1 x ?g1 = Inr (True, t2, g2)"
    "holds t2 g2 (remove1 x ?xs @ [x]) r2"
    using add_new_small [OF h1 nx c1(1) disjI1 [OF c1(2)], of DEFAULT_CAPACITY] by auto
  have f: "remove1 x ?xs = filter (\<lambda>y. y \<noteq> x) ?xs"
    using ht(2) by (simp add: distinct_remove1_removeAll removeAll_filter_not_eq) metis
  have "run DEFAULT_CAPACITY [Remove 0 x, Add 0 x] \<lparr>objs = [t], mem = g\<rparr> =
        Inr \<lparr>objs = [t2], mem = g2\<rparr>"
    by (simp only: run_single_add run_single_remove 1 2(1) sum.case prod.case run.simps(1))
  moreover have "elems t2 g2 = filter (\<lambda>y. y \<noteq> x) ?xs @ [x]"
    using holds_elems [OF 2(2)] f by simp
  ultimately show "\<exists>w. run DEFAULT_CAPACITY [Remove 0 x, Add 0 x] \<lparr>objs = [t], mem = g\<rparr> = Inr w \<and>
              elems (objs w ! 0) (mem w) = filter (\<lambda>y. y \<noteq> x) (elems t g) @ [x]"
    by simp
qed

text \<open>
  With \<open>a = 5\<close> and \<open>b = 3\<close> on an empty set of capacity 1 (which grows on the way), and
  with \<open>x = 3\<close> on the set 5, 3, 9.
\<close>

theorem C4_readd_moves_to_end_witness:
  "IntSet_inv \<lparr>data = 0, capacity = 1, used = 0\<rparr> [Some [None]] \<and>
   used \<lparr>data = 0, capacity = 1, used = 0\<rparr> = 0 \<and> (5 :: cint) \<noteq> 3 \<and>
   IntSet_inv \<lparr>data = 0, capacity = 3, used = 3\<rparr> [Some [Some 5, Some 3, Some 9]] \<and>
   3 \<in> set (elems \<lparr>data = 0, capacity = 3, used = 3\<rparr> [Some [Some 5, Some 3, Some 9]]) \<and>
   (\<exists>w. run 1 [Add 0 5, Add 0 3, Remove 0 5, Add 0 5]
          \<lparr>objs = [\<lparr>data = 0, capacity = 1, used = 0\<rparr>], mem = [Some [None]]\<rparr> = Inr w \<and>
        DumpData (objs w ! 0) (mem w) [] = Inr [Num 3, Text ''  '', Num 5]) \<and>
   (\<exists>w. run 1 [Remove 0 3, Add 0 3]
          \<lparr>objs = [\<lparr>data = 0, capacity = 3, used = 3\<rparr>], mem = [Some [Some 5, Some 3, Some 9]]\<rparr> = Inr w \<and>
        elems (objs w ! 0) (mem w) = [5, 9, 3])"
proof -
  let ?h = "[Some [None]] :: heap"
  let ?s = "\<lparr>data = 0, capacity = 1, used = 0\<rparr>"
  let ?g = "[Some [Some 5, Some 3, Some 9]] :: heap"
  let ?t = "\<lparr>data = 0, capacity = 3, used = 3\<rparr>"
  have a: "IntSet_inv ?s ?h" by code_simp
  have u: "used ?s = 0" by simp
  have n: "(5 :: cint) \<noteq> 3" by simp
  have b: "IntSet_inv ?t ?g" by code_simp
  have e: "elems ?t ?g = [5, 3, 9]" by code_simp
  have m: "3 \<in> set (elems ?t ?g)" unfolding e by simp
  have f: "filter (\<lambda>y. y \<noteq> 3) (elems ?t ?g) @ [3 :: cint] = [5, 9, 3]" unfolding e by simp
  from C4_readd_moves_to_end [OF a u n b m, of 1] a u n b m show ?thesis
    unfolding f by simp
qed

text \<open>
  Claim C5 (the growth request), as amended: for a set that satisfies the class invariant
  and is full (\<open>used = capacity\<close>), \<^bold>\<open>with a capacity of at most 1431655764\<close>, adding a
  value that is not present requests the capacity \<open>\<lfloor>1.5 * capacity\<rfloor> + 1\<close>, which is greater
  than the capacity, and the capacity after the add is that request.
\<close>

theorem C5_growth_request:
  assumes "IntSet_inv s h" "used s = capacity s" "x \<notin> set (elems s h)"
    and "capacity s \<le> MAX_GROWABLE"
  shows "grow_request (capacity s) = Inr (\<lfloor>1.5 * real_of_int (capacity s)\<rfloor> + 1) \<and>
         capacity s < \<lfloor>1.5 * real_of_int (capacity s)\<rfloor> + 1 \<and>
         (\<exists>s' h'. add DEFAULT_CAPACITY s x h = Inr (True, s', h') \<and>
                  capacity s' = \<lfloor>1.5 * real_of_int (capacity s)\<rfloor> + 1)"
proof -
  from assms(1) obtain rest where hs: "holds s h (elems s h) rest" "1 \<le> capacity s"
    by (rule inv_holdsD)
  have g: "grow_request (capacity s) = Inr ((3 * capacity s) div 2 + 1)"
    using hs(2) assms(4) by (rule grow_request_ok)
  have lt: "capacity s < (3 * capacity s) div 2 + 1" using hs(2) by (rule grow_request_exceeds)
  from add_new_cases [OF hs(1) assms(3) hs(2), of DEFAULT_CAPACITY] assms(2,4)
  obtain s' h' where "add DEFAULT_CAPACITY s x h = Inr (True, s', h')"
    "capacity s' = (3 * capacity s) div 2 + 1"
    by auto
  with g lt show ?thesis unfolding floor_three_halves by blast
qed

text \<open>Adding 9 to the full set 5, 3 of capacity 2: the request and the new capacity are 4.\<close>

theorem C5_growth_request_witness:
  "IntSet_inv \<lparr>data = 0, capacity = 2, used = 2\<rparr> [Some [Some 5, Some 3]] \<and>
   used \<lparr>data = 0, capacity = 2, used = 2\<rparr> = capacity \<lparr>data = 0, capacity = 2, used = 2\<rparr> \<and>
   9 \<notin> set (elems \<lparr>data = 0, capacity = 2, used = 2\<rparr> [Some [Some 5, Some 3]]) \<and>
   capacity \<lparr>data = 0, capacity = 2, used = 2\<rparr> \<le> MAX_GROWABLE \<and>
   grow_request 2 = Inr 4 \<and>
   (\<exists>s' h'. add 1 \<lparr>data = 0, capacity = 2, used = 2\<rparr> 9 [Some [Some 5, Some 3]] = Inr (True, s', h') \<and>
            capacity s' = 4)"
proof -
  let ?h = "[Some [Some 5, Some 3]] :: heap"
  let ?s = "\<lparr>data = 0, capacity = 2, used = 2\<rparr>"
  have a: "IntSet_inv ?s ?h" by code_simp
  have e: "elems ?s ?h = [5, 3]" by code_simp
  have n: "9 \<notin> set (elems ?s ?h)" unfolding e by simp
  have u: "used ?s = capacity ?s" by simp
  have c: "capacity ?s \<le> MAX_GROWABLE" by (simp add: MAX_GROWABLE_def)
  have f: "\<lfloor>1.5 * real_of_int (capacity ?s)\<rfloor> + 1 = 4" by simp
  from C5_growth_request [OF a u n c, of 1] a n c show ?thesis unfolding f by simp
qed

text \<open>
  The claim as it was stated, for every full set, fails at the capacity 1431655765: the
  product \<^verbatim>\<open>1.5 * capacity\<close> is 2147483647.5, its conversion is \<^verbatim>\<open>INT_MAX\<close>, and adding 1
  overflows. The set is the numbers from 0 to 1431655764, and the value added is -1.
\<close>

theorem C5_growth_request_counterexample:
  "IntSet_inv (full_set 1431655765) (full_store 1431655765) \<and>
   used (full_set 1431655765) = capacity (full_set 1431655765) \<and>
   contains (full_set 1431655765) (- 1) (full_store 1431655765) = Inr False \<and>
   grow_request (capacity (full_set 1431655765)) = Inl IntOverflow \<and>
   add 1 (full_set 1431655765) (- 1) (full_store 1431655765) = Inl IntOverflow"
proof -
  have m: "(- 1 :: cint) = word_of_nat 4294967295" by simp
  have i: "IntSet_inv (full_set 1431655765) (full_store 1431655765)"
    by (rule full_set_inv) simp_all
  have u: "used (full_set 1431655765) = capacity (full_set 1431655765)"
    by (simp add: full_set_def)
  have "(word_of_nat 4294967295 :: cint) \<notin> set (map word_of_nat [0..<1431655765])"
    by (rule word_not_in_upt) simp_all
  then have c: "contains (full_set 1431655765) (- 1) (full_store 1431655765) = Inr False"
    unfolding m contains_spec [OF full_set_holds] by (simp only: )
  have g: "grow_request (capacity (full_set 1431655765)) = Inl IntOverflow"
    by (rule grow_request_overflow) (simp add: full_set_def MAX_GROWABLE_def)
  have a: "add 1 (full_set 1431655765) (- 1) (full_store 1431655765) = Inl IntOverflow"
    unfolding m by (rule full_set_add_overflow) (simp_all add: MAX_GROWABLE_def)
  from i u c g a show ?thesis by (simp only: simp_thms)
qed

text \<open>
  Claim C6 (union commutes under \<^verbatim>\<open>==\<close>), as amended: for sets \<open>A\<close> and \<open>B\<close> that satisfy
  the class invariant \<^bold>\<open>and hold at most 1431655765 elements together\<close>,
  \<^verbatim>\<open>A.unionWith(B)\<close> and then \<^verbatim>\<open>B.unionWith(A)\<close> return, and \<^verbatim>\<open>==\<close> on the two results
  returns true.
\<close>

theorem C6_union_commutes:
  assumes "IntSet_inv A h" "IntSet_inv B h" "used A + used B \<le> MAX_GROWABLE + 1"
  shows "\<exists>U h1 V h2. unionWith DEFAULT_CAPACITY A B h = Inr (U, h1) \<and>
           unionWith DEFAULT_CAPACITY B A h1 = Inr (V, h2) \<and>
           equals U V h2 = Inr True"
proof -
  from assms(1) obtain ra where A: "holds A h (elems A h) ra" "distinct (elems A h)"
    "1 \<le> capacity A" by (rule inv_holdsD)
  from assms(2) obtain rb where B: "holds B h (elems B h) rb" "distinct (elems B h)"
    "1 \<le> capacity B" by (rule inv_holdsD)
  let ?xs = "elems A h" and ?ys = "elems B h"
  have u: "int (length ?xs + length ?ys) \<le> MAX_GROWABLE + 1"
    "int (length ?ys + length ?xs) \<le> MAX_GROWABLE + 1"
    using A(1) B(1) assms(3) by (simp_all add: holds_def)
  from unionWith_returns [OF A B(1) u(1), of DEFAULT_CAPACITY]
  obtain U h1 r1 where r: "unionWith DEFAULT_CAPACITY A B h = Inr (U, h1)"
    "holds U h1 (union_items ?xs ?ys) r1" "length h \<le> data U" "take (length h) h1 = h"
    by blast
  have len: "length h \<le> length h1" using r(2,3) by (simp add: holds_def)
  have tk: "take (length h) h1 = take (length h) h" using r(4) by simp
  have dA: "data A < length h" using A(1) by (simp add: holds_def)
  have dB: "data B < length h" using B(1) by (simp add: holds_def)
  have A1: "holds A h1 ?xs ra" using A(1) dA tk len by (rule holds_agree)
  have B1: "holds B h1 ?ys rb" using B(1) dB tk len by (rule holds_agree)
  from unionWith_returns [OF B1 B(2,3) A1 u(2), of DEFAULT_CAPACITY]
  obtain V h2 r2 where v: "unionWith DEFAULT_CAPACITY B A h1 = Inr (V, h2)"
    "holds V h2 (union_items ?ys ?xs) r2" "length h1 \<le> data V" "take (length h1) h2 = h1"
    by blast
  have len2: "length h1 \<le> length h2" using v(2,3) by (simp add: holds_def)
  have tk2: "take (length h1) h2 = take (length h1) h1" using v(4) by simp
  have dU: "data U < length h1" using r(2) by (simp add: holds_def)
  have U2: "holds U h2 (union_items ?xs ?ys) r1" using r(2) dU tk2 len2 by (rule holds_agree)
  have "equals U V h2 = Inr (set (union_items ?xs ?ys) = set (union_items ?ys ?xs))"
    using U2 v(2) distinct_union_items [OF A(2)] distinct_union_items [OF B(2)]
    by (rule equals_spec)
  then have "equals U V h2 = Inr True" by (simp add: set_union_items Un_commute)
  with r(1) v(1) show ?thesis by blast
qed

text \<open>
  With \<open>A\<close> the set 1, 2 and \<open>B\<close> the set 2, 3: the unions are 1, 2, 3 and 2, 3, 1.
\<close>

theorem C6_union_commutes_witness:
  "IntSet_inv \<lparr>data = 0, capacity = 2, used = 2\<rparr> [Some [Some 1, Some 2], Some [Some 2, Some 3, None]] \<and>
   IntSet_inv \<lparr>data = 1, capacity = 3, used = 2\<rparr> [Some [Some 1, Some 2], Some [Some 2, Some 3, None]] \<and>
   used \<lparr>data = 0, capacity = 2, used = 2\<rparr> + used \<lparr>data = 1, capacity = 3, used = 2\<rparr>
     \<le> MAX_GROWABLE + 1 \<and>
   unionWith 1 \<lparr>data = 0, capacity = 2, used = 2\<rparr> \<lparr>data = 1, capacity = 3, used = 2\<rparr>
     [Some [Some 1, Some 2], Some [Some 2, Some 3, None]] =
     Inr (\<lparr>data = 3, capacity = 4, used = 3\<rparr>,
          [Some [Some 1, Some 2], Some [Some 2, Some 3, None], None,
           Some [Some 1, Some 2, Some 3, None]]) \<and>
   unionWith 1 \<lparr>data = 1, capacity = 3, used = 2\<rparr> \<lparr>data = 0, capacity = 2, used = 2\<rparr>
     [Some [Some 1, Some 2], Some [Some 2, Some 3, None], None,
      Some [Some 1, Some 2, Some 3, None]] =
     Inr (\<lparr>data = 4, capacity = 3, used = 3\<rparr>,
          [Some [Some 1, Some 2], Some [Some 2, Some 3, None], None,
           Some [Some 1, Some 2, Some 3, None], Some [Some 2, Some 3, Some 1]]) \<and>
   equals \<lparr>data = 3, capacity = 4, used = 3\<rparr> \<lparr>data = 4, capacity = 3, used = 3\<rparr>
     [Some [Some 1, Some 2], Some [Some 2, Some 3, None], None,
      Some [Some 1, Some 2, Some 3, None], Some [Some 2, Some 3, Some 1]] = Inr True"
proof -
  let ?h = "[Some [Some 1, Some 2], Some [Some 2, Some 3, None]] :: heap"
  let ?A = "\<lparr>data = 0, capacity = 2, used = 2\<rparr>"
  let ?B = "\<lparr>data = 1, capacity = 3, used = 2\<rparr>"
  let ?h1 = "[Some [Some 1, Some 2], Some [Some 2, Some 3, None], None,
              Some [Some 1, Some 2, Some 3, None]] :: heap"
  have a: "IntSet_inv ?A ?h" by code_simp
  have b: "IntSet_inv ?B ?h" by code_simp
  have c: "used ?A + used ?B \<le> MAX_GROWABLE + 1" by (simp add: MAX_GROWABLE_def)
  have u: "unionWith 1 ?A ?B ?h = Inr (\<lparr>data = 3, capacity = 4, used = 3\<rparr>, ?h1)"
    by code_simp
  have v: "unionWith 1 ?B ?A ?h1 =
           Inr (\<lparr>data = 4, capacity = 3, used = 3\<rparr>,
                [Some [Some 1, Some 2], Some [Some 2, Some 3, None], None,
                 Some [Some 1, Some 2, Some 3, None], Some [Some 2, Some 3, Some 1]])"
    by code_simp
  from C6_union_commutes [OF a b c, of 1] a b c u v show ?thesis
    by simp
qed

text \<open>
  The claim as it was stated, for every pair of sets, fails for \<open>A\<close> the full set of the
  numbers from 0 to 1431655764 and \<open>B\<close> the set that holds -1, which is 1431655766 elements
  together: \<^verbatim>\<open>A.unionWith(B)\<close> copies \<open>A\<close>, the \<^verbatim>\<open>add\<close> of -1 to the full copy has to grow its
  array, and the growth request overflows. There is no union for \<^verbatim>\<open>==\<close> to compare.
\<close>

theorem C6_union_commutes_counterexample:
  "IntSet_inv (full_set 1431655765) (pair_store 1431655765) \<and>
   IntSet_inv minus_one_set (pair_store 1431655765) \<and>
   elems minus_one_set (pair_store 1431655765) = [- 1] \<and>
   used (full_set 1431655765) + used minus_one_set = MAX_GROWABLE + 2 \<and>
   unionWith 1 (full_set 1431655765) minus_one_set (pair_store 1431655765) = Inl IntOverflow"
proof -
  have n: "1 \<le> (1431655765 :: nat)" "(1431655765 :: nat) < 2 ^ 32" by simp_all
  have g: "nat MAX_GROWABLE < 1431655765" by (simp add: MAX_GROWABLE_def)
  note p = pair_store_sets [OF n]
  have e: "elems minus_one_set (pair_store 1431655765) = [- 1]" using p(2) by (rule holds_elems)
  have u: "used (full_set 1431655765) + used minus_one_set = MAX_GROWABLE + 2"
    by (simp add: full_set_def minus_one_set_def MAX_GROWABLE_def)
  have o: "unionWith 1 (full_set 1431655765) minus_one_set (pair_store 1431655765) =
           Inl IntOverflow"
    using g n(2) by (rule pair_store_union_overflow)
  from p(3) p(4) e u o show ?thesis by (simp only: simp_thms)
qed

text \<open>
  Claim C7 (\<^verbatim>\<open>unionWith\<close>, \<^verbatim>\<open>intersect\<close> and \<^verbatim>\<open>subtract\<close> leave their operands alone), as
  amended: for sets \<open>A\<close> and \<open>B\<close> that satisfy the class invariant, which may be one and
  the same set, \<^verbatim>\<open>intersect\<close> and \<^verbatim>\<open>subtract\<close> return a new set that is independent of \<open>A\<close>
  and \<open>B\<close>: the whole store as it was before the call is unchanged, and the members of
  \<open>A\<close> and \<open>B\<close> are never written. So does \<^verbatim>\<open>unionWith\<close>,
  \<^bold>\<open>when A and B hold at most 1431655765 elements together\<close>.
\<close>

theorem C7_set_algebra_leaves_operands:
  assumes "IntSet_inv A h" "IntSet_inv B h"
  shows "(used A + used B \<le> MAX_GROWABLE + 1 \<longrightarrow>
            (\<exists>R h'. unionWith DEFAULT_CAPACITY A B h = Inr (R, h') \<and>
                     result_independent A B h R h')) \<and>
         (\<exists>R h'. intersect A B h = Inr (R, h') \<and> result_independent A B h R h') \<and>
         (\<exists>R h'. subtract A B h = Inr (R, h') \<and> result_independent A B h R h')"
proof -
  from assms(1) obtain ra where A: "holds A h (elems A h) ra" "distinct (elems A h)"
    "1 \<le> capacity A" by (rule inv_holdsD)
  from assms(2) obtain rb where B: "holds B h (elems B h) rb" by (rule inv_holdsD)
  have u: "used A + used B = int (length (elems A h) + length (elems B h))"
    using A(1) B by (simp add: holds_def)
  have 1: "\<exists>R h'. unionWith DEFAULT_CAPACITY A B h = Inr (R, h') \<and>
                  result_independent A B h R h'"
    if small: "used A + used B \<le> MAX_GROWABLE + 1"
  proof -
    have "int (length (elems A h) + length (elems B h)) \<le> MAX_GROWABLE + 1"
      using small u by simp
    from unionWith_returns [OF A B this, of DEFAULT_CAPACITY]
    obtain R h' r' where r: "unionWith DEFAULT_CAPACITY A B h = Inr (R, h')"
      "holds R h' (union_items (elems A h) (elems B h)) r'"
      "1 \<le> capacity R" "length h \<le> data R" "take (length h) h' = h"
      by blast
    have "distinct (union_items (elems A h) (elems B h))"
      using A(2) by (rule distinct_union_items)
    with assms r(2-5) have "result_independent A B h R h'" by (intro result_independentI)
    with r(1) show ?thesis by blast
  qed
  from intersect_spec [OF A(1) B]
  obtain R h' r' where i: "intersect A B h = Inr (R, h')"
    "holds R h' (intersect_items (elems B h) (elems A h) (elems A h)) r'"
    "capacity R = capacity A" "data R = length h" "take (length h) h' = h"
    by blast
  have "distinct (intersect_items (elems B h) (elems A h) (elems A h))"
    using A(2) by (rule distinct_intersect_items)
  with assms i A(3) have "result_independent A B h R h'" by (intro result_independentI) auto
  then have 2: "\<exists>R h'. intersect A B h = Inr (R, h') \<and> result_independent A B h R h'"
    using i(1) by blast
  from subtract_spec [OF A(1) B]
  obtain R h' r' where s: "subtract A B h = Inr (R, h')"
    "holds R h' (subtract_items (elems A h) (elems B h)) r'"
    "capacity R = capacity A" "data R = length h" "take (length h) h' = h"
    by blast
  have "distinct (subtract_items (elems A h) (elems B h))"
    using A(2) by (rule distinct_subtract_items)
  with assms s A(3) have "result_independent A B h R h'" by (intro result_independentI) auto
  then have 3: "\<exists>R h'. subtract A B h = Inr (R, h') \<and> result_independent A B h R h'"
    using s(1) by blast
  from 1 2 3 show ?thesis by blast
qed

text \<open>With \<open>A\<close> the set 1, 2 and \<open>B\<close> the set 2, 3.\<close>

theorem C7_set_algebra_leaves_operands_witness:
  "IntSet_inv \<lparr>data = 0, capacity = 2, used = 2\<rparr> [Some [Some 1, Some 2], Some [Some 2, Some 3, None]] \<and>
   IntSet_inv \<lparr>data = 1, capacity = 3, used = 2\<rparr> [Some [Some 1, Some 2], Some [Some 2, Some 3, None]] \<and>
   used \<lparr>data = 0, capacity = 2, used = 2\<rparr> + used \<lparr>data = 1, capacity = 3, used = 2\<rparr>
     \<le> MAX_GROWABLE + 1 \<and>
   result_independent \<lparr>data = 0, capacity = 2, used = 2\<rparr> \<lparr>data = 1, capacity = 3, used = 2\<rparr>
     [Some [Some 1, Some 2], Some [Some 2, Some 3, None]]
     \<lparr>data = 3, capacity = 4, used = 3\<rparr>
     [Some [Some 1, Some 2], Some [Some 2, Some 3, None], None, Some [Some 1, Some 2, Some 3, None]] \<and>
   (\<exists>R h'. intersect \<lparr>data = 0, capacity = 2, used = 2\<rparr> \<lparr>data = 1, capacity = 3, used = 2\<rparr>
              [Some [Some 1, Some 2], Some [Some 2, Some 3, None]] = Inr (R, h') \<and>
            result_independent \<lparr>data = 0, capacity = 2, used = 2\<rparr> \<lparr>data = 1, capacity = 3, used = 2\<rparr>
              [Some [Some 1, Some 2], Some [Some 2, Some 3, None]] R h') \<and>
   (\<exists>R h'. subtract \<lparr>data = 0, capacity = 2, used = 2\<rparr> \<lparr>data = 1, capacity = 3, used = 2\<rparr>
              [Some [Some 1, Some 2], Some [Some 2, Some 3, None]] = Inr (R, h') \<and>
            result_independent \<lparr>data = 0, capacity = 2, used = 2\<rparr> \<lparr>data = 1, capacity = 3, used = 2\<rparr>
              [Some [Some 1, Some 2], Some [Some 2, Some 3, None]] R h')"
proof -
  let ?h = "[Some [Some 1, Some 2], Some [Some 2, Some 3, None]] :: heap"
  let ?A = "\<lparr>data = 0, capacity = 2, used = 2\<rparr>"
  let ?B = "\<lparr>data = 1, capacity = 3, used = 2\<rparr>"
  have a: "IntSet_inv ?A ?h" by code_simp
  have b: "IntSet_inv ?B ?h" by code_simp
  have c: "used ?A + used ?B \<le> MAX_GROWABLE + 1" by (simp add: MAX_GROWABLE_def)
  have u: "unionWith 1 ?A ?B ?h =
           Inr (\<lparr>data = 3, capacity = 4, used = 3\<rparr>,
                [Some [Some 1, Some 2], Some [Some 2, Some 3, None], None,
                 Some [Some 1, Some 2, Some 3, None]])"
    by code_simp
  from C7_set_algebra_leaves_operands [OF a b, of 1] a b c show ?thesis
    unfolding u by simp
qed

text \<open>
  The claim as it was stated, for every pair of sets, fails for \<^verbatim>\<open>unionWith\<close> on \<open>A\<close> the
  full set of the numbers from 0 to 1431655764 and \<open>B\<close> the set that holds -1: whatever
  \<^verbatim>\<open>DEFAULT_CAPACITY\<close> is, the \<^verbatim>\<open>add\<close> of -1 to the copy of \<open>A\<close> overflows the growth request,
  and \<^verbatim>\<open>unionWith\<close> returns no set.
\<close>

theorem C7_set_algebra_leaves_operands_counterexample:
  "IntSet_inv (full_set 1431655765) (pair_store 1431655765) \<and>
   IntSet_inv minus_one_set (pair_store 1431655765) \<and>
   (\<forall>DEFAULT_CAPACITY.
      unionWith DEFAULT_CAPACITY (full_set 1431655765) minus_one_set (pair_store 1431655765) =
        Inl IntOverflow) \<and>
   \<not> (\<exists>R h'. unionWith 1 (full_set 1431655765) minus_one_set (pair_store 1431655765) =
                Inr (R, h'))"
proof -
  have n: "1 \<le> (1431655765 :: nat)" "(1431655765 :: nat) < 2 ^ 32" by simp_all
  have g: "nat MAX_GROWABLE < 1431655765" by (simp add: MAX_GROWABLE_def)
  note p = pair_store_sets [OF n]
  have o: "unionWith DC (full_set 1431655765) minus_one_set (pair_store 1431655765) =
           Inl IntOverflow" for DC
    using g n(2) by (rule pair_store_union_overflow)
  have no: "\<not> (\<exists>R h'. unionWith 1 (full_set 1431655765) minus_one_set (pair_store 1431655765) =
                Inr (R, h'))"
    unfolding o by simp
  from p(3) p(4) o no show ?thesis by (simp only: simp_thms)
qed

text \<open>
  Claim C8 (adding a present value, removing an absent one). On a set that satisfies the
  class invariant, \<^verbatim>\<open>add\<close> of a value \<open>x\<close> that is present and \<^verbatim>\<open>remove\<close> of a value \<open>y\<close>
  that is absent both return false without an error, and leave the members of the object
  and the whole store as they were.
\<close>

theorem C8_noop_add_remove:
  assumes "IntSet_inv s h"
  shows "(x \<in> set (elems s h) \<longrightarrow> add DEFAULT_CAPACITY s x h = Inr (False, s, h)) \<and>
         (y \<notin> set (elems s h) \<longrightarrow> remove s y h = Inr (False, s, h))"
proof -
  from assms obtain rest where "holds s h (elems s h) rest" by (rule inv_holdsD)
  then show ?thesis by (simp add: add_present remove_absent)
qed

text \<open>On the set 5, 3: adding 5 and removing 7 change nothing.\<close>

theorem C8_noop_add_remove_witness:
  "IntSet_inv \<lparr>data = 0, capacity = 3, used = 2\<rparr> [Some [Some 5, Some 3, None]] \<and>
   5 \<in> set (elems \<lparr>data = 0, capacity = 3, used = 2\<rparr> [Some [Some 5, Some 3, None]]) \<and>
   7 \<notin> set (elems \<lparr>data = 0, capacity = 3, used = 2\<rparr> [Some [Some 5, Some 3, None]]) \<and>
   add 1 \<lparr>data = 0, capacity = 3, used = 2\<rparr> 5 [Some [Some 5, Some 3, None]] =
     Inr (False, \<lparr>data = 0, capacity = 3, used = 2\<rparr>, [Some [Some 5, Some 3, None]]) \<and>
   remove \<lparr>data = 0, capacity = 3, used = 2\<rparr> 7 [Some [Some 5, Some 3, None]] =
     Inr (False, \<lparr>data = 0, capacity = 3, used = 2\<rparr>, [Some [Some 5, Some 3, None]])"
proof -
  let ?h = "[Some [Some 5, Some 3, None]] :: heap"
  let ?s = "\<lparr>data = 0, capacity = 3, used = 2\<rparr>"
  have a: "IntSet_inv ?s ?h" by code_simp
  have e: "elems ?s ?h = [5, 3]" by code_simp
  have m: "(5 :: cint) \<in> set [5, 3]" "(7 :: cint) \<notin> set [5, 3]" by simp_all
  from C8_noop_add_remove [OF a, of 5 1 7] a e m show ?thesis by simp
qed

text \<open>
  Claim C9 (\<^verbatim>\<open>add\<close> writes inside the array), as amended: for a set that satisfies the class
  invariant \<^bold>\<open>and either has a free cell or has a capacity of at most 1431655764\<close>,
  \<^verbatim>\<open>add\<close> of a value that is not present returns true with no error, so no access of
  it was out of bounds; the capacity after the conditional resize is greater than the
  count before the add, which is the position written; and the set that results satisfies
  the invariant and holds the old elements followed by the new one.
\<close>

theorem C9_add_within_bounds:
  assumes "IntSet_inv s h" "x \<notin> set (elems s h)"
    and "used s < capacity s \<or> capacity s \<le> MAX_GROWABLE"
  shows "\<exists>s' h'. add DEFAULT_CAPACITY s x h = Inr (True, s', h') \<and>
           0 \<le> used s \<and> used s < capacity s' \<and> used s' = used s + 1 \<and>
           IntSet_inv s' h' \<and> elems s' h' = elems s h @ [x]"
proof -
  from assms(1) obtain rest where hs: "holds s h (elems s h) rest" "distinct (elems s h)"
    "1 \<le> capacity s" by (rule inv_holdsD)
  from add_new_cases [OF hs(1) assms(2) hs(3), of DEFAULT_CAPACITY] assms(3)
  obtain s' h' rest' where r: "add DEFAULT_CAPACITY s x h = Inr (True, s', h')"
    "holds s' h' (elems s h @ [x]) rest'"
    by auto
  have d: "distinct (elems s h @ [x])" using hs(2) assms(2) by simp
  have c: "1 \<le> capacity s'" using r(2) by (simp add: holds_def)
  have "IntSet_inv s' h'" using r(2) d c by (rule holds_inv)
  moreover have "elems s' h' = elems s h @ [x]" using r(2) by (rule holds_elems)
  moreover have "used s' = used s + 1" "used s < capacity s'" "0 \<le> used s"
    using r(2) hs(1) by (simp_all add: holds_def)
  ultimately show ?thesis using r(1) by blast
qed

text \<open>Adding 9 to the full set 5, 3 of capacity 2.\<close>

theorem C9_add_within_bounds_witness:
  "IntSet_inv \<lparr>data = 0, capacity = 2, used = 2\<rparr> [Some [Some 5, Some 3]] \<and>
   9 \<notin> set (elems \<lparr>data = 0, capacity = 2, used = 2\<rparr> [Some [Some 5, Some 3]]) \<and>
   capacity \<lparr>data = 0, capacity = 2, used = 2\<rparr> \<le> MAX_GROWABLE \<and>
   (\<exists>s' h'. add 1 \<lparr>data = 0, capacity = 2, used = 2\<rparr> 9 [Some [Some 5, Some 3]] = Inr (True, s', h') \<and>
            2 < capacity s' \<and> IntSet_inv s' h' \<and> elems s' h' = [5, 3, 9])"
proof -
  let ?h = "[Some [Some 5, Some 3]] :: heap"
  let ?s = "\<lparr>data = 0, capacity = 2, used = 2\<rparr>"
  have a: "IntSet_inv ?s ?h" by code_simp
  have e: "elems ?s ?h = [5, 3]" by code_simp
  have n: "9 \<notin> set (elems ?s ?h)" unfolding e by simp
  have c: "capacity ?s \<le> MAX_GROWABLE" by (simp add: MAX_GROWABLE_def)
  from C9_add_within_bounds [OF a n disjI2 [OF c], of 1] a n c e show ?thesis by auto
qed

text \<open>
  The claim as it was stated, for every state with \<open>used \<le> capacity\<close> and \<open>1 \<le> capacity\<close>,
  fails on the full set of the numbers from 0 to 1431655765: \<^verbatim>\<open>1.5 * capacity\<close> is
  2147483649, which no \<^verbatim>\<open>int\<close> holds, so the conditional resize has no capacity to give
  the array, whatever \<^verbatim>\<open>DEFAULT_CAPACITY\<close> is.
\<close>

theorem C9_add_within_bounds_counterexample:
  "IntSet_inv (full_set 1431655766) (full_store 1431655766) \<and>
   used (full_set 1431655766) \<le> capacity (full_set 1431655766) \<and>
   1 \<le> capacity (full_set 1431655766) \<and>
   contains (full_set 1431655766) (- 1) (full_store 1431655766) = Inr False \<and>
   (\<forall>DEFAULT_CAPACITY.
      add DEFAULT_CAPACITY (full_set 1431655766) (- 1) (full_store 1431655766) = Inl IntOverflow)"
proof -
  have m: "(- 1 :: cint) = word_of_nat 4294967295" by simp
  have i: "IntSet_inv (full_set 1431655766) (full_store 1431655766)"
    by (rule full_set_inv) simp_all
  have u: "used (full_set 1431655766) \<le> capacity (full_set 1431655766)"
    "1 \<le> capacity (full_set 1431655766)"
    by (simp_all add: full_set_def)
  have "(word_of_nat 4294967295 :: cint) \<notin> set (map word_of_nat [0..<1431655766])"
    by (rule word_not_in_upt) simp_all
  then have c: "contains (full_set 1431655766) (- 1) (full_store 1431655766) = Inr False"
    unfolding m contains_spec [OF full_set_holds] by (simp only: )
  have a: "add DC (full_set 1431655766) (- 1) (full_store 1431655766) = Inl IntOverflow" for DC
    unfolding m by (rule full_set_add_overflow) (simp_all add: MAX_GROWABLE_def)
  from i u c a show ?thesis by (simp only: simp_thms)
qed

text \<open>
  Claim C10 (the scan of \<^verbatim>\<open>remove\<close> finds what \<^verbatim>\<open>contains\<close> found). On a set that satisfies
  the class invariant, when \<^verbatim>\<open>contains\<close> returns true the scan of \<^verbatim>\<open>remove\<close> ends with a
  removal, never by running to its end, so the last \<^verbatim>\<open>return false\<close> of \<^verbatim>\<open>remove\<close> is not
  reached; and \<^verbatim>\<open>remove\<close> always returns, with true exactly when the value was present.
\<close>

theorem C10_remove_scan_finds:
  assumes "IntSet_inv s h"
  shows "(contains s x h = Inr True \<longrightarrow>
            (\<exists>s' h'. remove_loop s x h 0 = Inr (Some (s', h')) \<and>
                     remove s x h = Inr (True, s', h'))) \<and>
         (\<exists>r s' h'. remove s x h = Inr (r, s', h') \<and> (r \<longleftrightarrow> x \<in> set (elems s h)))"
proof -
  from assms obtain rest where hs: "holds s h (elems s h) rest" by (rule inv_holdsD)
  have c: "contains s x h = Inr (x \<in> set (elems s h))" using hs by (rule contains_spec)
  have l: "remove_loop s x h 0 =
         (if x \<in> set (elems s h) then
            Inr (Some (s\<lparr>used := used s - 1\<rparr>,
              h[data s := Some (map Some (remove1 x (elems s h)) @ Some (last (elems s h)) # rest)]))
          else Inr None)"
    using remove_loop_spec [OF hs, of 0 x] by simp
  show ?thesis
  proof (cases "x \<in> set (elems s h)")
    case True
    then show ?thesis using c l by (auto simp: remove_def)
  next
    case False
    then show ?thesis using c by (auto simp: remove_absent [OF hs])
  qed
qed

text \<open>Removing 3 from the set 5, 3, 9.\<close>

theorem C10_remove_scan_finds_witness:
  "IntSet_inv \<lparr>data = 0, capacity = 3, used = 3\<rparr> [Some [Some 5, Some 3, Some 9]] \<and>
   contains \<lparr>data = 0, capacity = 3, used = 3\<rparr> 3 [Some [Some 5, Some 3, Some 9]] = Inr True \<and>
   (\<exists>s' h'. remove_loop \<lparr>data = 0, capacity = 3, used = 3\<rparr> 3 [Some [Some 5, Some 3, Some 9]] 0 =
              Inr (Some (s', h')) \<and>
            remove \<lparr>data = 0, capacity = 3, used = 3\<rparr> 3 [Some [Some 5, Some 3, Some 9]] =
              Inr (True, s', h'))"
proof -
  let ?h = "[Some [Some 5, Some 3, Some 9]] :: heap"
  let ?s = "\<lparr>data = 0, capacity = 3, used = 3\<rparr>"
  have a: "IntSet_inv ?s ?h" by code_simp
  have c: "contains ?s 3 ?h = Inr True" by code_simp
  from C10_remove_scan_finds [OF a, of 3] a c show ?thesis by blast
qed

end
